theory Spec2Isabelle
  imports Main "HOL-Library.Sublist"
begin

section \<open>Strings and POSIX paths as the program uses them\<close>

text \<open>
  The program is the \<open>ContextManager\<close> class of the context server: it scans a project
  directory into a tree (\<open>scanProject\<close>, \<open>buildProjectStructure\<close>), selects files from the
  tree (\<open>findRelevantFiles\<close>, \<open>matchesPattern\<close>) and reads them through a cache
  (\<open>getFileContent\<close>, \<open>getFileContext\<close>, \<open>generateProjectContext\<close>).

  JavaScript strings are modelled as \<open>string\<close>. The functions of Node's \<open>path\<close> module
  are modelled for POSIX (separator \<open>/\<close>), following Node's own algorithms.
\<close>

definition lower_char :: "char \<Rightarrow> char" where
  "lower_char c =
     (let n = (of_char c :: nat) in if 65 \<le> n \<and> n \<le> 90 then char_of (n + 32) else c)"

text \<open>\<open>String.prototype.toLowerCase\<close>, on ASCII letters; other bytes are left as they are.\<close>

definition toLowerCase :: "string \<Rightarrow> string" where
  "toLowerCase s = map lower_char s"

text \<open>\<open>String.prototype.startsWith\<close>.\<close>

fun startsWith :: "string \<Rightarrow> string \<Rightarrow> bool" where
  "startsWith s [] = True"
| "startsWith [] (p # ps) = False"
| "startsWith (c # cs) (p # ps) = (c = p \<and> startsWith cs ps)"

text \<open>\<open>String.prototype.includes\<close>: the pattern occurs somewhere in the string.\<close>

fun str_includes :: "string \<Rightarrow> string \<Rightarrow> bool" where
  "str_includes [] pat = (pat = [])"
| "str_includes (c # cs) pat = (startsWith (c # cs) pat \<or> str_includes cs pat)"

text \<open>
  The last component of a path, as \<open>path.basename\<close> and \<open>path.extname\<close> find it: trailing
  separators are dropped, then everything up to the last separator.
\<close>

definition path_basename :: "string \<Rightarrow> string" where
  "path_basename p =
     rev (takeWhile (\<lambda>c. c \<noteq> CHR ''/'') (dropWhile (\<lambda>c. c = CHR ''/'') (rev p)))"

text \<open>
  \<open>path.extname\<close>: from the last dot of the last component to its end; empty when the
  component has no dot, when its only dot is its first character, or when it is \<open>..\<close>.
\<close>

definition path_extname :: "string \<Rightarrow> string" where
  "path_extname p =
     (let b = path_basename p;
          afterDot = rev (takeWhile (\<lambda>c. c \<noteq> CHR ''.'') (rev b));
          beforeDot = rev (drop 1 (dropWhile (\<lambda>c. c \<noteq> CHR ''.'') (rev b)))
      in if CHR ''.'' \<notin> set b then []
         else if beforeDot = [] then []
         else if b = ''..'' then []
         else CHR ''.'' # afterDot)"

text \<open>Splitting at the separator, as \<open>normalizeString\<close> walks the segments of a path.\<close>

fun segments :: "string \<Rightarrow> string \<Rightarrow> string list" where
  "segments cur [] = [rev cur]"
| "segments cur (c # cs) =
     (if c = CHR ''/'' then rev cur # segments [] cs else segments (c # cur) cs)"

text \<open>
  Node's \<open>normalizeString\<close> on the segments: empty segments and \<open>.\<close> are skipped, \<open>..\<close>
  removes the segment before it (or is kept, when nothing is left to remove and the path
  may rise above its start). The accumulator holds the result most recent segment first.
\<close>

fun normalizeSegments :: "bool \<Rightarrow> string list \<Rightarrow> string list \<Rightarrow> string list" where
  "normalizeSegments allowAboveRoot acc [] = rev acc"
| "normalizeSegments allowAboveRoot acc (s # ss) =
     (if s = [] \<or> s = ''.'' then normalizeSegments allowAboveRoot acc ss
      else if s = ''..'' then
        (case acc of
           [] \<Rightarrow> normalizeSegments allowAboveRoot
                   (if allowAboveRoot then [''..''] else []) ss
         | a # as \<Rightarrow>
             if a = ''..''
             then normalizeSegments allowAboveRoot
                    (if allowAboveRoot then ''..'' # acc else acc) ss
             else normalizeSegments allowAboveRoot as ss)
      else normalizeSegments allowAboveRoot (s # acc) ss)"

fun joinSegments :: "string list \<Rightarrow> string" where
  "joinSegments [] = []"
| "joinSegments [s] = s"
| "joinSegments (s # t # ss) = s @ CHR ''/'' # joinSegments (t # ss)"

definition normalizeString :: "string \<Rightarrow> bool \<Rightarrow> string" where
  "normalizeString p allowAboveRoot =
     joinSegments (normalizeSegments allowAboveRoot [] (segments [] p))"

text \<open>\<open>path.normalize\<close>.\<close>

definition path_normalize :: "string \<Rightarrow> string" where
  "path_normalize p =
     (if p = [] then ''.''
      else
        let isAbsolute = (hd p = CHR ''/'');
            trailingSeparator = (last p = CHR ''/'');
            q = normalizeString p (\<not> isAbsolute)
        in if q = [] then (if isAbsolute then ''/'' else if trailingSeparator then ''./'' else ''.'')
           else (if isAbsolute then ''/'' else []) @ q @ (if trailingSeparator then ''/'' else []))"

text \<open>\<open>path.join\<close> of two arguments: empty arguments are skipped, the rest is normalised.\<close>

definition path_join :: "string \<Rightarrow> string \<Rightarrow> string" where
  "path_join a b =
     (if a = [] \<and> b = [] then ''.''
      else if a = [] then path_normalize b
      else if b = [] then path_normalize a
      else path_normalize (a @ CHR ''/'' # b))"

text \<open>
  \<open>path.resolve\<close> of one argument. The first parameter is \<open>process.cwd()\<close>, an absolute
  path, which Node prepends when the argument is not absolute.
\<close>

definition path_resolve :: "string \<Rightarrow> string \<Rightarrow> string" where
  "path_resolve cwd p =
     (let resolvedPath =
            (if p = [] then cwd @ ''/''
             else if hd p = CHR ''/'' then p @ ''/''
             else cwd @ CHR ''/'' # p @ ''/'')
      in CHR ''/'' # normalizeString resolvedPath False)"

section \<open>The data model\<close>

text \<open>
  A node of the project structure: the objects \<open>{type: "directory", name, path, children}\<close>
  and \<open>{type: "file", name, path, extension}\<close> that \<open>buildProjectStructure\<close> creates.
\<close>

datatype node =
    Directory string string "node list"
  | File string string string

fun node_name :: "node \<Rightarrow> string" where
  "node_name (Directory n p cs) = n"
| "node_name (File n p e) = n"

fun node_path :: "node \<Rightarrow> string" where
  "node_path (Directory n p cs) = p"
| "node_path (File n p e) = p"

text \<open>
  What is on disk below a directory, as \<open>fs.readdirSync(dir, {withFileTypes: true})\<close>
  shows it: a directory lists its entries by name in enumeration order; \<open>FsFile\<close> is any
  entry whose \<open>isDirectory()\<close> is false; \<open>FsUnreadable\<close> is a directory whose listing throws.
  At the root, \<open>FsFile\<close> and \<open>FsUnreadable\<close> also stand for a path that is no directory or
  does not exist: \<open>readdirSync\<close> throws there too.
\<close>

datatype fs_tree =
    FsDir "(string \<times> fs_tree) list"
  | FsFile
  | FsUnreadable

fun isDirectory :: "fs_tree \<Rightarrow> bool" where
  "isDirectory (FsDir es) = True"
| "isDirectory FsFile = False"
| "isDirectory FsUnreadable = True"

text \<open>
  Errors thrown: \<open>new Error(message)\<close> by the program itself, and the system errors of
  the \<open>fs\<close> calls, with the call and the path.
\<close>

datatype js_error =
    Error string
  | SystemError string string

section \<open>The scanner\<close>

text \<open>The test that makes the loop of \<open>buildProjectStructure\<close> skip an entry.\<close>

definition skipped :: "string \<Rightarrow> bool" where
  "skipped name \<longleftrightarrow>
     name = ''node_modules'' \<or> name = ''.git'' \<or> startsWith name ''.'' \<or>
     name = ''dist'' \<or> name = ''build''"

definition codeExtensions :: "string list" where
  "codeExtensions = [''.js'', ''.jsx'', ''.ts'', ''.tsx'', ''.json'', ''.html'', ''.css'']"

text \<open>
  \<open>buildProjectStructure(dir, relativePath)\<close>, with what is on disk at \<open>dir\<close> as first
  parameter. \<open>scanEntries\<close> is the \<open>for (const entry of entries)\<close> loop; it returns the
  children pushed for the entries still to visit, in order. An error of a recursive call
  ends the loop and the call.
\<close>

fun buildProjectStructure :: "fs_tree \<Rightarrow> string \<Rightarrow> string \<Rightarrow> js_error + node"
  and scanEntries :: "(string \<times> fs_tree) list \<Rightarrow> string \<Rightarrow> string \<Rightarrow> js_error + node list"
where
  "buildProjectStructure (FsDir entries) dir relativePath =
     (case scanEntries entries dir relativePath of
        Inl e \<Rightarrow> Inl e
      | Inr children \<Rightarrow> Inr (Directory (path_basename dir) relativePath children))"
| "buildProjectStructure FsFile dir relativePath = Inl (SystemError ''scandir'' dir)"
| "buildProjectStructure FsUnreadable dir relativePath = Inl (SystemError ''scandir'' dir)"
| "scanEntries [] dir relativePath = Inr []"
| "scanEntries ((name, sub) # rest) dir relativePath =
     (let entryPath = path_join dir name;
          entryRelativePath = path_join relativePath name
      in if skipped name then scanEntries rest dir relativePath
         else if isDirectory sub then
           (case buildProjectStructure sub entryPath entryRelativePath of
              Inl e \<Rightarrow> Inl e
            | Inr subdirStructure \<Rightarrow>
                (case scanEntries rest dir relativePath of
                   Inl e \<Rightarrow> Inl e
                 | Inr children \<Rightarrow> Inr (subdirStructure # children)))
         else
           (let ext = toLowerCase (path_extname name)
            in if ext \<in> set codeExtensions
               then (case scanEntries rest dir relativePath of
                       Inl e \<Rightarrow> Inl e
                     | Inr children \<Rightarrow> Inr (File name entryRelativePath ext # children))
               else scanEntries rest dir relativePath))"

text \<open>
  The manager object: \<open>this.fileCache\<close>, a \<open>Map\<close> from the path given to
  \<open>getFileContent\<close> to the content read, and \<open>this.projectStructure\<close>, \<open>null\<close> until a scan
  has succeeded.
\<close>

record context_manager =
  fileCache :: "string \<rightharpoonup> string"
  projectStructure :: "node option"

text \<open>
  \<open>scanProject(projectRoot)\<close>: the structure is stored only when the scan returns; an
  error is logged and thrown again, and the manager is as before.
\<close>

definition scanProject ::
  "fs_tree \<Rightarrow> context_manager \<Rightarrow> string \<Rightarrow> (js_error + node) \<times> context_manager" where
  "scanProject fs mgr projectRoot =
     (case buildProjectStructure fs projectRoot [] of
        Inl e \<Rightarrow> (Inl e, mgr)
      | Inr structure \<Rightarrow> (Inr structure, mgr\<lparr>projectStructure := Some structure\<rparr>))"

section \<open>Selection\<close>

text \<open>
  A \<open>RegExp\<close> object, as far as \<open>test\<close> goes: what its matcher finds in a string when the
  search starts at an index (the index at which the match found ends, or no match),
  whether it has the \<open>g\<close> or the \<open>y\<close> flag, and its \<open>lastIndex\<close> property.
\<close>

record regexp =
  re_exec :: "string \<Rightarrow> nat \<Rightarrow> nat option"
  re_advancing :: bool
  lastIndex :: nat

text \<open>
  \<open>RegExp.prototype.test\<close>. Without the \<open>g\<close> and \<open>y\<close> flags the search starts at 0 and
  \<open>lastIndex\<close> is left alone. With one of them the search starts at \<open>lastIndex\<close>: a match
  moves \<open>lastIndex\<close> to its end; no match, or a \<open>lastIndex\<close> beyond the string, sets it
  to 0.
\<close>

definition regexp_test :: "regexp \<Rightarrow> string \<Rightarrow> bool \<times> regexp" where
  "regexp_test re s =
     (if \<not> re_advancing re then (re_exec re s 0 \<noteq> None, re)
      else if lastIndex re > length s then (False, re\<lparr>lastIndex := 0\<rparr>)
      else (case re_exec re s (lastIndex re) of
              None \<Rightarrow> (False, re\<lparr>lastIndex := 0\<rparr>)
            | Some e \<Rightarrow> (True, re\<lparr>lastIndex := e\<rparr>)))"

text \<open>
  The \<open>RegExp\<close> objects of the program, each under its identity. A pattern of
  \<open>includePatterns\<close> or \<open>excludePatterns\<close> is a string, a \<open>RegExp\<close> object (the same object
  may stand in several places), or any other value.
\<close>

type_synonym regexps = "nat \<Rightarrow> regexp"

datatype pattern =
    StringPattern string
  | RegExpPattern nat
  | OtherPattern

text \<open>\<open>matchesPattern(filePath, pattern)\<close>: the answer and the \<open>RegExp\<close> objects after the call.\<close>

fun matchesPattern :: "regexps \<Rightarrow> string \<Rightarrow> pattern \<Rightarrow> bool \<times> regexps" where
  "matchesPattern regs filePath (RegExpPattern r) =
     (let (answer, re') = regexp_test (regs r) filePath in (answer, regs(r := re')))"
| "matchesPattern regs filePath (StringPattern s) = (str_includes filePath s, regs)"
| "matchesPattern regs filePath OtherPattern = (False, regs)"

text \<open>
  \<open>patterns.some((pattern) => this.matchesPattern(path, pattern))\<close>: the patterns are
  tried in order up to the first that matches.
\<close>

fun somePattern :: "regexps \<Rightarrow> string \<Rightarrow> pattern list \<Rightarrow> bool \<times> regexps" where
  "somePattern regs path [] = (False, regs)"
| "somePattern regs path (pattern # rest) =
     (let (answer, regs') = matchesPattern regs path pattern
      in if answer then (True, regs') else somePattern regs' path rest)"

text \<open>
  The options of \<open>generateProjectContext\<close>, and those of \<open>findRelevantFiles\<close>, which carry
  \<open>currentDepth\<close> as well. The two limits are JavaScript numbers; they are modelled as
  integers.
\<close>

record policy =
  maxFiles :: int
  maxDepth :: int
  includePatterns :: "pattern list"
  excludePatterns :: "pattern list"

record find_options = policy +
  currentDepth :: int

text \<open>An element of the result of \<open>findRelevantFiles\<close>: \<open>{path, absolutePath}\<close>.\<close>

record relevant_file =
  rf_path :: string
  absolutePath :: string

text \<open>
  \<open>Array.prototype.slice(0, end)\<close> for an integer \<open>end\<close>: a negative \<open>end\<close> counts from the
  end of the array.
\<close>

definition slice0 :: "'a list \<Rightarrow> int \<Rightarrow> 'a list" where
  "slice0 xs end = (if end < 0 then take (nat (int (length xs) + end)) xs else take (nat end) xs)"

text \<open>
  \<open>findRelevantFiles(node, options)\<close>: the result and the \<open>RegExp\<close> objects after the call.
  The first parameter is \<open>process.cwd()\<close>, which \<open>path.resolve\<close> reads. At a file the
  include patterns are tried unless there are none, and then the exclude patterns, in
  every case. \<open>findInChildren\<close> is the loop over \<open>node.children\<close>, with \<open>results\<close> as it
  stands before the next child; a full \<open>results\<close> ends the loop.
\<close>

fun findRelevantFiles ::
    "string \<Rightarrow> regexps \<Rightarrow> node \<Rightarrow> find_options \<Rightarrow> relevant_file list \<times> regexps"
  and findInChildren ::
    "string \<Rightarrow> regexps \<Rightarrow> node list \<Rightarrow> find_options \<Rightarrow> relevant_file list \<Rightarrow>
       relevant_file list \<times> regexps"
where
  "findRelevantFiles cwd regs (Directory name path children) options =
     (if currentDepth options > maxDepth options then ([], regs)
      else findInChildren cwd regs children options [])"
| "findRelevantFiles cwd regs (File name path extension) options =
     (if currentDepth options > maxDepth options then ([], regs)
      else
        let (matchesInclude, regs1) =
              (if length (includePatterns options) = 0 then (True, regs)
               else somePattern regs path (includePatterns options));
            (matchesExclude, regs2) = somePattern regs1 path (excludePatterns options)
        in (if matchesInclude \<and> \<not> matchesExclude
            then [\<lparr>rf_path = path, absolutePath = path_resolve cwd path\<rparr>]
            else [],
            regs2))"
| "findInChildren cwd regs [] options results = (results, regs)"
| "findInChildren cwd regs (child # rest) options results =
     (if int (length results) \<ge> maxFiles options then (results, regs)
      else
        let (childResults, regs') =
              findRelevantFiles cwd regs child
                (options\<lparr>currentDepth := currentDepth options + 1\<rparr>)
        in findInChildren cwd regs' rest options
             (slice0 (results @ childResults) (maxFiles options)))"

section \<open>Reading files through the cache\<close>

text \<open>
  The files on disk during one call: what \<open>fs.readFileSync(path, "utf8")\<close> returns and
  what \<open>fs.statSync(path).mtime\<close> is (a time stamp), each \<open>None\<close> where the call throws.
\<close>

record disk =
  readFile :: "string \<rightharpoonup> string"
  statMtime :: "string \<rightharpoonup> nat"

text \<open>
  \<open>getFileContent(filePath)\<close>: the content and the cache after the call. A content read
  is stored; a failed read returns \<open>null\<close> and stores nothing.
\<close>

definition getFileContent ::
  "disk \<Rightarrow> (string \<rightharpoonup> string) \<Rightarrow> string \<Rightarrow> string option \<times> (string \<rightharpoonup> string)" where
  "getFileContent d cache filePath =
     (case cache filePath of
        Some cached \<Rightarrow> (Some cached, cache)
      | None \<Rightarrow>
          (case readFile d filePath of
             Some content \<Rightarrow> (Some content, cache(filePath \<mapsto> content))
           | None \<Rightarrow> (None, cache)))"

text \<open>The object \<open>getFileContext\<close> returns.\<close>

record file_context =
  fc_path :: string
  fc_content :: string
  fc_extension :: string
  lastModified :: nat

text \<open>
  \<open>getFileContext(filePath)\<close>: \<open>null\<close> (here \<open>Inr None\<close>) when the content is falsy, which
  \<open>null\<close> and the empty string are. \<open>fs.statSync\<close> stands outside every \<open>try\<close>: where it
  throws, the promise is rejected (\<open>Inl\<close>).
\<close>

definition getFileContext ::
  "disk \<Rightarrow> (string \<rightharpoonup> string) \<Rightarrow> string \<Rightarrow>
     (js_error + file_context option) \<times> (string \<rightharpoonup> string)" where
  "getFileContext d cache filePath =
     (let (content, cache') = getFileContent d cache filePath
      in (case content of
            None \<Rightarrow> Inr None
          | Some c \<Rightarrow>
              if c = [] then Inr None
              else (case statMtime d filePath of
                      None \<Rightarrow> Inl (SystemError ''stat'' filePath)
                    | Some mtime \<Rightarrow>
                        Inr (Some \<lparr>fc_path = filePath, fc_content = c,
                                   fc_extension = path_extname filePath,
                                   lastModified = mtime\<rparr>)),
          cache'))"

text \<open>
  \<open>relevantFiles.map((file) => this.getFileContext(file.absolutePath))\<close>: one promise per
  file, in order, each call working on the cache the calls before it left. Every call
  runs, whatever the others do. (Each call reads, or takes from the cache, before its
  first \<open>await\<close>, and calls \<open>fs.statSync\<close> after it; so the program does all the reads
  before the first \<open>stat\<close>. On a disk that stays as it is during the call this gives the
  values and the cache computed here.)
\<close>

fun getFileContexts ::
  "disk \<Rightarrow> (string \<rightharpoonup> string) \<Rightarrow> string list \<Rightarrow>
     (js_error + file_context option) list \<times> (string \<rightharpoonup> string)" where
  "getFileContexts d cache [] = ([], cache)"
| "getFileContexts d cache (filePath # rest) =
     (let (r, cache') = getFileContext d cache filePath;
          (rs, cache'') = getFileContexts d cache' rest
      in (r # rs, cache''))"

text \<open>\<open>await Promise.all(promises)\<close>: the values in order, or the first rejection.\<close>

fun promise_all :: "(js_error + 'a) list \<Rightarrow> js_error + 'a list" where
  "promise_all [] = Inr []"
| "promise_all (Inl e # rs) = Inl e"
| "promise_all (Inr v # rs) = (case promise_all rs of Inl e \<Rightarrow> Inl e | Inr vs \<Rightarrow> Inr (v # vs))"

text \<open>The object \<open>generateProjectContext\<close> returns.\<close>

record project_context =
  pc_projectStructure :: node
  relevantFiles :: "file_context list"

text \<open>
  \<open>generateProjectContext(options)\<close>: the result, the manager and the \<open>RegExp\<close> objects
  after the call. The parameters before the manager are \<open>process.cwd()\<close>, the disk and the
  \<open>RegExp\<close> objects. The selection has run the patterns and the reads have changed the
  cache also when the call throws for a rejected promise.
\<close>

definition generateProjectContext ::
  "string \<Rightarrow> disk \<Rightarrow> regexps \<Rightarrow> context_manager \<Rightarrow> policy \<Rightarrow>
     (js_error + project_context) \<times> context_manager \<times> regexps" where
  "generateProjectContext cwd d regs mgr options =
     (case projectStructure mgr of
        None \<Rightarrow> (Inl (Error ''Project has not been scanned yet''), mgr, regs)
      | Some structure \<Rightarrow>
          let (selected, regs') =
                findRelevantFiles cwd regs structure
                  \<lparr>maxFiles = maxFiles options, maxDepth = maxDepth options,
                   includePatterns = includePatterns options,
                   excludePatterns = excludePatterns options, currentDepth = 0\<rparr>;
              (promises, cache') = getFileContexts d (fileCache mgr) (map absolutePath selected);
              mgr' = mgr\<lparr>fileCache := cache'\<rparr>
          in (case promise_all promises of
                Inl e \<Rightarrow> (Inl e, mgr', regs')
              | Inr fileContexts \<Rightarrow>
                  (Inr \<lparr>pc_projectStructure = structure,
                        relevantFiles = List.map_filter (\<lambda>context. context) fileContexts\<rparr>,
                   mgr', regs')))"

section \<open>Notions used to state the properties\<close>

text \<open>The manager the constructor makes: an empty cache and no structure.\<close>

definition new_ContextManager :: context_manager where
  "new_ContextManager = \<lparr>fileCache = Map.empty, projectStructure = None\<rparr>"

text \<open>
  The nodes below the root of a structure, each by the names on the way down to it
  (the root's own name left out) and whether it is a directory; and the same for the
  entries on disk below a directory.
\<close>

fun is_directory :: "node \<Rightarrow> bool" where
  "is_directory (Directory n p cs) = True"
| "is_directory (File n p e) = False"

fun tree_entries :: "node \<Rightarrow> (string list \<times> bool) list"
  and children_entries :: "node list \<Rightarrow> (string list \<times> bool) list" where
  "tree_entries (Directory n p cs) = children_entries cs"
| "tree_entries (File n p e) = []"
| "children_entries [] = []"
| "children_entries (c # cs) =
     ([node_name c], is_directory c) #
     map (\<lambda>(chain, k). (node_name c # chain, k)) (tree_entries c) @ children_entries cs"

fun fs_entries :: "fs_tree \<Rightarrow> (string list \<times> bool) list"
  and listing_entries :: "(string \<times> fs_tree) list \<Rightarrow> (string list \<times> bool) list" where
  "fs_entries (FsDir es) = listing_entries es"
| "fs_entries FsFile = []"
| "fs_entries FsUnreadable = []"
| "listing_entries [] = []"
| "listing_entries ((name, sub) # rest) =
     ([name], isDirectory sub) #
     map (\<lambda>(chain, k). (name # chain, k)) (fs_entries sub) @ listing_entries rest"

text \<open>The file nodes of a structure: name and \<open>extension\<close> field.\<close>

fun file_leaves :: "node \<Rightarrow> (string \<times> string) list"
  and children_leaves :: "node list \<Rightarrow> (string \<times> string) list" where
  "file_leaves (File n p e) = [(n, e)]"
| "file_leaves (Directory n p cs) = children_leaves cs"
| "children_leaves [] = []"
| "children_leaves (c # cs) = file_leaves c @ children_leaves cs"

text \<open>
  The names \<open>readdirSync\<close> returns: a name is not empty, holds no separator, and is
  neither \<open>.\<close> nor \<open>..\<close>.
\<close>

definition entry_name_ok :: "string \<Rightarrow> bool" where
  "entry_name_ok name \<longleftrightarrow>
     name \<noteq> [] \<and> CHR ''/'' \<notin> set name \<and> name \<noteq> ''.'' \<and> name \<noteq> ''..''"

fun fs_names_ok :: "fs_tree \<Rightarrow> bool"
  and listing_names_ok :: "(string \<times> fs_tree) list \<Rightarrow> bool" where
  "fs_names_ok (FsDir es) = listing_names_ok es"
| "fs_names_ok FsFile = True"
| "fs_names_ok FsUnreadable = True"
| "listing_names_ok [] = True"
| "listing_names_ok ((name, sub) # rest) =
     (entry_name_ok name \<and> fs_names_ok sub \<and> listing_names_ok rest)"

text \<open>
  What the scanner keeps: no name on the way down is skipped, and a file's extension,
  in lower case, is one of the code extensions.
\<close>

definition kept :: "string list \<times> bool \<Rightarrow> bool" where
  "kept entry \<longleftrightarrow>
     (\<forall>name \<in> set (fst entry). \<not> skipped name) \<and>
     (\<not> snd entry \<longrightarrow> toLowerCase (path_extname (last (fst entry))) \<in> set codeExtensions)"

text \<open>
  A project to run the program on: \<open>src/a.ts\<close>, \<open>src/b.txt\<close> and \<open>node_modules/c.js\<close>
  below the root, and the structure the scan of it returns.
\<close>

definition scenario_fs :: fs_tree where
  "scenario_fs =
     FsDir [(''src'', FsDir [(''a.ts'', FsFile), (''b.txt'', FsFile)]),
            (''node_modules'', FsDir [(''c.js'', FsFile)])]"

definition scenario_tree :: node where
  "scenario_tree =
     Directory ''proj'' [] [Directory ''src'' ''src'' [File ''a.ts'' ''src/a.ts'' ''.ts'']]"

text \<open>
  The file leaves of a structure in depth-first pre-order, each with its path and its
  depth: the number of directories above it, counted from the depth given for the node
  itself (0 for the root).
\<close>

fun leaves_at :: "int \<Rightarrow> node \<Rightarrow> (string \<times> int) list"
  and leaves_at_list :: "int \<Rightarrow> node list \<Rightarrow> (string \<times> int) list" where
  "leaves_at depth (File n p e) = [(p, depth)]"
| "leaves_at depth (Directory n p cs) = leaves_at_list (depth + 1) cs"
| "leaves_at_list depth [] = []"
| "leaves_at_list depth (c # cs) = leaves_at depth c @ leaves_at_list depth cs"

text \<open>
  A path matches a pattern: the string occurs in it, or the matcher of the \<open>RegExp\<close>
  finds a match in it, searching from its start.
\<close>

fun pattern_matches :: "regexps \<Rightarrow> string \<Rightarrow> pattern \<Rightarrow> bool" where
  "pattern_matches regs path (StringPattern s) = str_includes path s"
| "pattern_matches regs path (RegExpPattern r) = (re_exec (regs r) path 0 \<noteq> None)"
| "pattern_matches regs path OtherPattern = False"

text \<open>
  A candidate, in the words of the specification: the include patterns are empty or the
  path matches one of them, and the path matches no exclude pattern.
\<close>

definition is_candidate :: "regexps \<Rightarrow> 'a policy_scheme \<Rightarrow> string \<Rightarrow> bool" where
  "is_candidate regs options path \<longleftrightarrow>
     (includePatterns options = [] \<or>
      (\<exists>pattern \<in> set (includePatterns options). pattern_matches regs path pattern)) \<and>
     \<not> (\<exists>pattern \<in> set (excludePatterns options). pattern_matches regs path pattern)"

text \<open>
  Patterns whose test keeps no state: strings, other values, and \<open>RegExp\<close> objects that
  have neither the \<open>g\<close> nor the \<open>y\<close> flag.
\<close>

fun stateless_pattern :: "regexps \<Rightarrow> pattern \<Rightarrow> bool" where
  "stateless_pattern regs (RegExpPattern r) = (\<not> re_advancing (regs r))"
| "stateless_pattern regs (StringPattern s) = True"
| "stateless_pattern regs OtherPattern = True"

definition stateless :: "regexps \<Rightarrow> 'a policy_scheme \<Rightarrow> bool" where
  "stateless regs options \<longleftrightarrow>
     list_all (stateless_pattern regs) (includePatterns options) \<and>
     list_all (stateless_pattern regs) (excludePatterns options)"

text \<open>
  The candidates among leaves: those no deeper than \<open>maxDepth\<close>, in the order given, as the
  objects \<open>findRelevantFiles\<close> makes of them.
\<close>

definition candidates_at ::
  "string \<Rightarrow> regexps \<Rightarrow> 'a policy_scheme \<Rightarrow> (string \<times> int) list \<Rightarrow> relevant_file list" where
  "candidates_at cwd regs options leaves =
     map (\<lambda>(p, depth). \<lparr>rf_path = p, absolutePath = path_resolve cwd p\<rparr>)
       (filter (\<lambda>(p, depth). depth \<le> maxDepth options \<and> is_candidate regs options p) leaves)"


text \<open>
  The content \<open>getFileContent\<close> answers for a path, given the cache and the disk: the
  cached content, or else what the disk gives.
\<close>

definition effective :: "disk \<Rightarrow> (string \<rightharpoonup> string) \<Rightarrow> string \<Rightarrow> string option" where
  "effective d cache filePath =
     (case cache filePath of Some cached \<Rightarrow> Some cached | None \<Rightarrow> readFile d filePath)"

text \<open>What \<open>getFileContext\<close> answers for a path, as a function of cache and disk.\<close>

definition context_of ::
  "disk \<Rightarrow> (string \<rightharpoonup> string) \<Rightarrow> string \<Rightarrow> js_error + file_context option" where
  "context_of d cache filePath =
     (case effective d cache filePath of
        None \<Rightarrow> Inr None
      | Some c \<Rightarrow>
          if c = [] then Inr None
          else (case statMtime d filePath of
                  None \<Rightarrow> Inl (SystemError ''stat'' filePath)
                | Some mtime \<Rightarrow>
                    Inr (Some \<lparr>fc_path = filePath, fc_content = c,
                               fc_extension = path_extname filePath,
                               lastModified = mtime\<rparr>)))"

text \<open>
  The files \<open>generateProjectContext\<close> selects, and the \<open>RegExp\<close> objects after the
  selection: its call of \<open>findRelevantFiles\<close>.
\<close>

definition selection :: "string \<Rightarrow> regexps \<Rightarrow> node \<Rightarrow> policy \<Rightarrow> relevant_file list" where
  "selection cwd regs structure options =
     fst (findRelevantFiles cwd regs structure
       \<lparr>maxFiles = maxFiles options, maxDepth = maxDepth options,
        includePatterns = includePatterns options,
        excludePatterns = excludePatterns options, currentDepth = 0\<rparr>)"

definition regexps_after :: "string \<Rightarrow> regexps \<Rightarrow> node \<Rightarrow> policy \<Rightarrow> regexps" where
  "regexps_after cwd regs structure options =
     snd (findRelevantFiles cwd regs structure
       \<lparr>maxFiles = maxFiles options, maxDepth = maxDepth options,
        includePatterns = includePatterns options,
        excludePatterns = excludePatterns options, currentDepth = 0\<rparr>)"

text \<open>The value of the promise for a path when it is fulfilled: the context or \<open>null\<close>.\<close>

definition context_value :: "disk \<Rightarrow> (string \<rightharpoonup> string) \<Rightarrow> string \<Rightarrow> file_context option" where
  "context_value d cache filePath =
     (case context_of d cache filePath of Inl e \<Rightarrow> None | Inr v \<Rightarrow> v)"

text \<open>A path whose content, from the cache or else from the disk, is there and not empty.\<close>

definition readable :: "disk \<Rightarrow> (string \<rightharpoonup> string) \<Rightarrow> string \<Rightarrow> bool" where
  "readable d cache filePath \<longleftrightarrow>
     (case effective d cache filePath of None \<Rightarrow> False | Some c \<Rightarrow> c \<noteq> [])"


text \<open>
  \<open>RegExp\<close> objects for a program that uses none: no object has a flag or finds a match.
\<close>

definition no_regexps :: regexps where
  "no_regexps = (\<lambda>r. \<lparr>re_exec = (\<lambda>s i. None), re_advancing = False, lastIndex = 0\<rparr>)"

text \<open>
  The matcher of a \<open>RegExp\<close> whose source is a literal text: the first place at or after
  the index where the text stands in the string. \<open>global_literal text\<close> is the object
  \<open>/text/g\<close> as the literal makes it, with \<open>lastIndex\<close> 0.
\<close>

fun find_literal :: "string \<Rightarrow> string \<Rightarrow> nat \<Rightarrow> nat option" where
  "find_literal lit [] i = (if lit = [] then Some i else None)"
| "find_literal lit (c # cs) i =
     (if startsWith (c # cs) lit then Some (i + length lit) else find_literal lit cs (Suc i))"

definition literal_exec :: "string \<Rightarrow> string \<Rightarrow> nat \<Rightarrow> nat option" where
  "literal_exec lit s i = find_literal lit (drop i s) i"

definition global_literal :: "string \<Rightarrow> regexp" where
  "global_literal lit = \<lparr>re_exec = literal_exec lit, re_advancing = True, lastIndex = 0\<rparr>"


definition src_regexps :: regexps where
  "src_regexps = no_regexps(0 := global_literal ''src'')"


text \<open>The defaults of the options of \<open>generateProjectContext\<close>.\<close>

definition default_policy :: policy where
  "default_policy =
     \<lparr>maxFiles = 10, maxDepth = 3, includePatterns = [], excludePatterns = []\<rparr>"

text \<open>
  A larger structure, as a scan of a project with \<open>index.js\<close>, \<open>src/x.ts\<close>,
  \<open>src/x.test.ts\<close>, \<open>src/deep/y.ts\<close> and \<open>z.css\<close> returns it.
\<close>

definition sample_tree :: node where
  "sample_tree =
     Directory ''proj'' []
       [File ''index.js'' ''index.js'' ''.js'',
        Directory ''src'' ''src''
          [File ''x.ts'' ''src/x.ts'' ''.ts'',
           File ''x.test.ts'' ''src/x.test.ts'' ''.ts'',
           Directory ''deep'' ''src/deep'' [File ''y.ts'' ''src/deep/y.ts'' ''.ts'']],
        File ''z.css'' ''z.css'' ''.css'']"


text \<open>A disk with nothing on it: every read and every \<open>stat\<close> throws.\<close>

definition empty_disk :: disk where
  "empty_disk = \<lparr>readFile = Map.empty, statMtime = Map.empty\<rparr>"

text \<open>
  A disk on which the files of the larger structure can be read below \<open>/proj\<close>, and a
  manager that has scanned it and has read nothing yet.
\<close>

definition sample_disk :: disk where
  "sample_disk =
     \<lparr>readFile = map_of
        [(''/proj/index.js'', ''export {}''),
         (''/proj/src/x.ts'', ''let x''),
         (''/proj/src/x.test.ts'', ''test(x)''),
         (''/proj/src/deep/y.ts'', ''let y''),
         (''/proj/z.css'', ''b {}'')],
      statMtime = map_of
        [(''/proj/index.js'', 100),
         (''/proj/src/x.ts'', 200),
         (''/proj/src/x.test.ts'', 300),
         (''/proj/src/deep/y.ts'', 400),
         (''/proj/z.css'', 500)]\<rparr>"

definition sample_manager :: context_manager where
  "sample_manager = new_ContextManager\<lparr>projectStructure := Some sample_tree\<rparr>"

text \<open>A manager that has scanned the small project and has read nothing yet.\<close>

definition scanned_manager :: context_manager where
  "scanned_manager = new_ContextManager\<lparr>projectStructure := Some scenario_tree\<rparr>"

text \<open>
  Two disks for a project scanned at \<open>/proj\<close> while the process runs in \<open>/work\<close>: one
  with \<open>src/a.ts\<close> in both places, one with the scanned file only.
\<close>

definition two_places_disk :: disk where
  "two_places_disk =
     \<lparr>readFile = map_of
        [(''/proj/src/a.ts'', ''scanned''), (''/work/src/a.ts'', ''elsewhere'')],
      statMtime = map_of [(''/proj/src/a.ts'', 100), (''/work/src/a.ts'', 200)]\<rparr>"

definition project_only_disk :: disk where
  "project_only_disk =
     \<lparr>readFile = map_of [(''/proj/src/a.ts'', ''scanned'')],
      statMtime = map_of [(''/proj/src/a.ts'', 100)]\<rparr>"

text \<open>
  The small project on disk below \<open>/proj\<close> after \<open>src/a.ts\<close> has been rewritten, and
  with \<open>src/a.ts\<close> an empty file.
\<close>

definition touched_disk :: disk where
  "touched_disk =
     \<lparr>readFile = map_of [(''/proj/src/a.ts'', ''changed'')],
      statMtime = map_of [(''/proj/src/a.ts'', 999)]\<rparr>"

definition empty_file_disk :: disk where
  "empty_file_disk =
     \<lparr>readFile = map_of [(''/proj/src/a.ts'', [])],
      statMtime = map_of [(''/proj/src/a.ts'', 100)]\<rparr>"

text \<open>The disk of the larger project after \<open>src/x.ts\<close> has been deleted.\<close>

definition sample_disk_without_x :: disk where
  "sample_disk_without_x =
     \<lparr>readFile = map_of
        [(''/proj/index.js'', ''export {}''),
         (''/proj/src/x.test.ts'', ''test(x)''),
         (''/proj/src/deep/y.ts'', ''let y''),
         (''/proj/z.css'', ''b {}'')],
      statMtime = map_of
        [(''/proj/index.js'', 100),
         (''/proj/src/x.test.ts'', 300),
         (''/proj/src/deep/y.ts'', 400),
         (''/proj/z.css'', 500)]\<rparr>"

text \<open>
  What the first assembly of the small project returns, with the process running in
  \<open>/proj\<close>, and what a second one returns after the file has been rewritten.
\<close>

definition first_context :: project_context where
  "first_context =
     \<lparr>pc_projectStructure = scenario_tree, relevantFiles =
        [\<lparr>fc_path = ''/proj/src/a.ts'', fc_content = ''scanned'', fc_extension = ''.ts'',
          lastModified = 100\<rparr>]\<rparr>"

definition second_context :: project_context where
  "second_context =
     \<lparr>pc_projectStructure = scenario_tree, relevantFiles =
        [\<lparr>fc_path = ''/proj/src/a.ts'', fc_content = ''scanned'', fc_extension = ''.ts'',
          lastModified = 999\<rparr>]\<rparr>"

section \<open>The scanner: lemmas\<close>

lemma segments_no_sep: "CHR ''/'' \<notin> set ys \<Longrightarrow> segments cur ys = [rev cur @ ys]"
  by (induction ys arbitrary: cur) auto

lemma segments_append_sep:
  "segments cur (xs @ CHR ''/'' # ys) = segments cur xs @ segments [] ys"
  by (induction xs arbitrary: cur) auto

lemma normalizeSegments_snoc:
  "s \<noteq> [] \<Longrightarrow> s \<noteq> ''.'' \<Longrightarrow> s \<noteq> ''..'' \<Longrightarrow>
   normalizeSegments allow acc (ss @ [s]) = normalizeSegments allow acc ss @ [s]"
  by (induction ss arbitrary: acc) (auto split: list.splits)

lemma joinSegments_snoc:
  "joinSegments (xs @ [s]) = (if xs = [] then s else joinSegments xs @ CHR ''/'' # s)"
  by (induction xs rule: joinSegments.induct) auto

lemma last_not_sep: "s \<noteq> [] \<Longrightarrow> CHR ''/'' \<notin> set s \<Longrightarrow> last s \<noteq> CHR ''/''"
  by (metis last_in_set)

lemma path_basename_suffix:
  assumes "s \<noteq> []" "CHR ''/'' \<notin> set s" "pre = [] \<or> last pre = CHR ''/''"
  shows "path_basename (pre @ s) = s"
proof -
  from assms(1,2) have h: "hd (rev s) \<noteq> CHR ''/''" "rev s \<noteq> []"
    using last_not_sep[of s] by (auto simp: hd_rev)
  then have d: "dropWhile (\<lambda>c. c = CHR ''/'') (rev s @ rev pre) = rev s @ rev pre"
    by (cases "rev s") auto
  have t: "takeWhile (\<lambda>c. c \<noteq> CHR ''/'') (rev s @ rev pre) = rev s"
  proof (cases "pre = []")
    case True
    with assms(2) show ?thesis by (auto simp: takeWhile_eq_all_conv)
  next
    case False
    with assms(3) have "hd (rev pre) = CHR ''/''" "rev pre \<noteq> []" by (auto simp: hd_rev)
    then obtain r where "rev pre = CHR ''/'' # r" by (cases "rev pre") auto
    with assms(2) show ?thesis by (simp add: takeWhile_append)
  qed
  show ?thesis by (simp add: path_basename_def d t)
qed

lemma segments_ends:
  assumes "CHR ''/'' \<notin> set name" "p = name \<or> (\<exists>d. p = d @ CHR ''/'' # name)"
  shows "\<exists>S. segments [] p = S @ [name]"
  using assms by (auto simp: segments_no_sep segments_append_sep)

lemma path_normalize_ends:
  assumes "entry_name_ok name" "p = name \<or> (\<exists>d. p = d @ CHR ''/'' # name)"
  shows "\<exists>pre. path_normalize p = pre @ name \<and> (pre = [] \<or> last pre = CHR ''/'')"
proof -
  from assms have nm: "name \<noteq> []" "CHR ''/'' \<notin> set name" "name \<noteq> ''.''" "name \<noteq> ''..''"
    by (auto simp: entry_name_ok_def)
  from segments_ends[OF nm(2) assms(2)] obtain S where S: "segments [] p = S @ [name]" by blast
  from assms(2) nm(1) have pne: "p \<noteq> []" and lp: "last p = last name" by auto
  from nm(1,2) have ln: "last name \<noteq> CHR ''/''" by (rule last_not_sep)
  define allow where "allow = (hd p \<noteq> CHR ''/'')"
  define N where "N = normalizeSegments allow [] S"
  have q: "normalizeString p allow =
           (if N = [] then name else joinSegments N @ CHR ''/'' # name)"
    by (simp add: normalizeString_def S normalizeSegments_snoc[OF nm(1,3,4)] joinSegments_snoc N_def)
  then have qne: "normalizeString p allow \<noteq> []" using nm(1) by auto
  have "path_normalize p =
        ((if hd p = CHR ''/'' then ''/'' else []) @
         (if N = [] then [] else joinSegments N @ ''/'')) @ name"
    using pne lp ln qne q by (simp add: path_normalize_def Let_def allow_def)
  moreover have "(if hd p = CHR ''/'' then ''/'' else []) @
         (if N = [] then [] else joinSegments N @ ''/'') = [] \<or>
        last ((if hd p = CHR ''/'' then ''/'' else []) @
         (if N = [] then [] else joinSegments N @ ''/'')) = CHR ''/''"
    by auto
  ultimately show ?thesis by blast
qed

lemma path_basename_join:
  assumes "entry_name_ok name"
  shows "path_basename (path_join dir name) = name"
proof -
  from assms have nm: "name \<noteq> []" "CHR ''/'' \<notin> set name" by (auto simp: entry_name_ok_def)
  have "\<exists>pre. path_join dir name = pre @ name \<and> (pre = [] \<or> last pre = CHR ''/'')"
  proof (cases "dir = []")
    case True
    then show ?thesis using path_normalize_ends[OF assms, of name] nm by (simp add: path_join_def)
  next
    case False
    then show ?thesis
      using path_normalize_ends[OF assms, of "dir @ CHR ''/'' # name"] nm
      by (simp add: path_join_def)
  qed
  then obtain pre where "path_join dir name = pre @ name" "pre = [] \<or> last pre = CHR ''/''"
    by blast
  then show ?thesis using path_basename_suffix[OF nm, of pre] by simp
qed

lemma tree_entries_nonempty:
  "([], k) \<notin> set (tree_entries t)"
  "([], k) \<notin> set (children_entries cs)"
  by (induction t and cs rule: tree_entries_children_entries.induct) auto

lemma kept_single:
  "kept ([name], k) \<longleftrightarrow>
     \<not> skipped name \<and> (\<not> k \<longrightarrow> toLowerCase (path_extname name) \<in> set codeExtensions)"
  by (simp add: kept_def)

lemma kept_Cons:
  "chain \<noteq> [] \<Longrightarrow> kept (name # chain, k) \<longleftrightarrow> \<not> skipped name \<and> kept (chain, k)"
  by (auto simp: kept_def)

lemma scan_invariant:
  "(fs_names_ok fs \<longrightarrow> (\<forall>t. buildProjectStructure fs dir rel = Inr t \<longrightarrow>
      is_directory t \<and> node_name t = path_basename dir \<and>
      set (tree_entries t) \<subseteq> set (fs_entries fs) \<and>
      (\<forall>e \<in> set (tree_entries t). kept e) \<and>
      (\<forall>(n, x) \<in> set (file_leaves t). x = toLowerCase (path_extname n) \<and> x \<in> set codeExtensions)))"
  "(listing_names_ok es \<longrightarrow> (\<forall>cs. scanEntries es dir rel = Inr cs \<longrightarrow>
      set (children_entries cs) \<subseteq> set (listing_entries es) \<and>
      (\<forall>e \<in> set (children_entries cs). kept e) \<and>
      (\<forall>(n, x) \<in> set (children_leaves cs). x = toLowerCase (path_extname n) \<and> x \<in> set codeExtensions)))"
proof (induction fs dir rel and es dir rel rule: buildProjectStructure_scanEntries.induct)
  case (1 entries dir relativePath)
  then show ?case by (auto split: sum.splits)
next
  case (2 dir relativePath)
  then show ?case by simp
next
  case (3 dir relativePath)
  then show ?case by simp
next
  case (4 dir relativePath)
  then show ?case by simp
next
  case (5 name sub rest dir relativePath)
  show ?case
  proof (intro impI allI)
    fix cs
    assume ok: "listing_names_ok ((name, sub) # rest)"
      and run: "scanEntries ((name, sub) # rest) dir relativePath = Inr cs"
    from ok have nm: "entry_name_ok name" "fs_names_ok sub" "listing_names_ok rest"
      by simp_all
    let ?goal = "set (children_entries cs) \<subseteq> set (listing_entries ((name, sub) # rest)) \<and>
      (\<forall>e \<in> set (children_entries cs). kept e) \<and>
      (\<forall>(n, x) \<in> set (children_leaves cs).
          x = toLowerCase (path_extname n) \<and> x \<in> set codeExtensions)"
    show ?goal
    proof (cases "skipped name")
      case True
      with run have "scanEntries rest dir relativePath = Inr cs" by simp
      from "5.IH"(1)[OF refl refl True, rule_format, OF nm(3) this]
      show ?thesis by auto
    next
      case ns: False
      show ?thesis
      proof (cases "isDirectory sub")
        case True
        from run ns True obtain t cs' where
          t: "buildProjectStructure sub (path_join dir name) (path_join relativePath name) = Inr t"
          and cs': "scanEntries rest dir relativePath = Inr cs'"
          and cs: "cs = t # cs'"
          by (auto simp: Let_def split: sum.splits)
        note A = "5.IH"(2)[OF refl refl ns True, rule_format, OF nm(2) t]
        note B = "5.IH"(3)[OF refl refl ns True t, rule_format, OF nm(3) cs']
        have ne: "\<And>chain k. (chain, k) \<in> set (tree_entries t) \<Longrightarrow> chain \<noteq> []"
          using tree_entries_nonempty(1)[of _ t] by auto
        have nt: "node_name t = name"
          using A nm(1) by (simp add: path_basename_join)
        have "set (children_entries cs) \<subseteq> set (listing_entries ((name, sub) # rest))"
          using A B True nt by (auto simp: cs)
        moreover have "\<forall>e \<in> set (children_entries cs). kept e"
          using A B ns ne nt by (auto simp: cs kept_single kept_Cons)
        moreover have "\<forall>(n, x) \<in> set (children_leaves cs).
            x = toLowerCase (path_extname n) \<and> x \<in> set codeExtensions"
          using A B by (auto simp: cs)
        ultimately show ?thesis by blast
      next
        case nd: False
        show ?thesis
        proof (cases "toLowerCase (path_extname name) \<in> set codeExtensions")
          case True
          from run ns nd True obtain cs' where
            cs': "scanEntries rest dir relativePath = Inr cs'"
            and cs: "cs = File name (path_join relativePath name) (toLowerCase (path_extname name)) # cs'"
            by (auto simp: Let_def split: sum.splits)
          note B = "5.IH"(4)[OF refl refl ns nd refl True, rule_format, OF nm(3) cs']
          show ?thesis using B ns nd True by (auto simp: cs kept_single)
        next
          case False
          with run ns nd have "scanEntries rest dir relativePath = Inr cs"
            by (simp add: Let_def)
          from "5.IH"(5)[OF refl refl ns nd refl False, rule_format, OF nm(3) this]
          show ?thesis by auto
        qed
      qed
    qed
  qed
qed

lemma scenario_scan:
  "buildProjectStructure scenario_fs ''/proj'' [] = Inr scenario_tree"
  by code_simp

lemma scenario_names_ok: "fs_names_ok scenario_fs"
  by code_simp

section \<open>The scanner: what the structure leaves out\<close>

text \<open>
  C1. Whatever directory is scanned, the structure \<open>scanProject\<close> returns has no node
  for an entry named \<open>node_modules\<close>, \<open>.git\<close>, \<open>dist\<close> or \<open>build\<close> or whose name begins with a
  dot, nor for anything below such an entry; it has no file node for a file whose
  extension, in lower case, is not one of \<open>.js .jsx .ts .tsx .json .html .css\<close>; every
  node is for an entry on disk, and every file node carries that lower-case extension.
  Entries are named as \<open>readdirSync\<close> names them (\<open>fs_names_ok\<close>).
\<close>

theorem scan_omits_skipped_and_foreign_entries:
  assumes "fs_names_ok fs"
    and "scanProject fs mgr projectRoot = (Inr tree, mgr')"
  shows "(\<forall>chain isDir. (\<exists>name \<in> set chain. skipped name) \<longrightarrow>
            (chain, isDir) \<notin> set (tree_entries tree)) \<and>
         (\<forall>chain. toLowerCase (path_extname (last chain)) \<notin> set codeExtensions \<longrightarrow>
            (chain, False) \<notin> set (tree_entries tree)) \<and>
         set (tree_entries tree) \<subseteq> set (fs_entries fs) \<and>
         (\<forall>(name, ext) \<in> set (file_leaves tree).
            ext = toLowerCase (path_extname name) \<and> ext \<in> set codeExtensions)"
proof -
  from assms(2) have b: "buildProjectStructure fs projectRoot [] = Inr tree"
    by (simp add: scanProject_def split: sum.splits)
  note inv = scan_invariant(1)[rule_format, OF assms(1) b]
  have k: "kept e" if "e \<in> set (tree_entries tree)" for e
    using inv that by simp
  have c1: "\<forall>chain isDir. (\<exists>name \<in> set chain. skipped name) \<longrightarrow>
            (chain, isDir) \<notin> set (tree_entries tree)"
  proof (intro allI impI notI)
    fix chain isDir
    assume sk: "\<exists>name \<in> set chain. skipped name"
      and "(chain, isDir) \<in> set (tree_entries tree)"
    then have "kept (chain, isDir)" by (intro k)
    then have "\<forall>name \<in> set chain. \<not> skipped name" by (simp add: kept_def)
    with sk show False by blast
  qed
  have c2: "\<forall>chain. toLowerCase (path_extname (last chain)) \<notin> set codeExtensions \<longrightarrow>
            (chain, False) \<notin> set (tree_entries tree)"
  proof (intro allI impI notI)
    fix chain
    assume ext: "toLowerCase (path_extname (last chain)) \<notin> set codeExtensions"
      and "(chain, False) \<in> set (tree_entries tree)"
    then have "kept (chain, False)" by (intro k)
    then have "toLowerCase (path_extname (last chain)) \<in> set codeExtensions"
      unfolding kept_def fst_conv snd_conv by blast
    with ext show False by blast
  qed
  have c3: "set (tree_entries tree) \<subseteq> set (fs_entries fs)"
    using inv by simp
  have c4: "\<forall>(name, ext) \<in> set (file_leaves tree).
            ext = toLowerCase (path_extname name) \<and> ext \<in> set codeExtensions"
    using inv by simp
  show ?thesis by (intro conjI) (fact c1 c2 c3 c4)+
qed

theorem scan_omits_skipped_and_foreign_entries_witness:
  "fs_names_ok scenario_fs \<and>
   scanProject scenario_fs new_ContextManager ''/proj'' =
     (Inr scenario_tree, new_ContextManager\<lparr>projectStructure := Some scenario_tree\<rparr>) \<and>
   ([''node_modules''], True) \<notin> set (tree_entries scenario_tree) \<and>
   ([''node_modules'', ''c.js''], False) \<notin> set (tree_entries scenario_tree) \<and>
   ([''src'', ''b.txt''], False) \<notin> set (tree_entries scenario_tree) \<and>
   ([''src'', ''a.ts''], False) \<in> set (fs_entries scenario_fs) \<and>
   set (file_leaves scenario_tree) = {(''a.ts'', ''.ts'')}"
proof -
  have s: "scanProject scenario_fs new_ContextManager ''/proj'' =
     (Inr scenario_tree, new_ContextManager\<lparr>projectStructure := Some scenario_tree\<rparr>)"
    by (simp add: scanProject_def scenario_scan)
  note t = scan_omits_skipped_and_foreign_entries[OF scenario_names_ok s]
  have sk: "skipped ''node_modules''" by (simp add: skipped_def)
  have ext: "toLowerCase (path_extname (last [''src'', ''b.txt''])) \<notin> set codeExtensions"
    by code_simp
  have e: "([''src'', ''a.ts''], False) \<in> set (tree_entries scenario_tree)"
    by (simp add: scenario_tree_def)
  note t1 = t[THEN conjunct1, rule_format]
  note t2 = t[THEN conjunct2, THEN conjunct1, rule_format]
  note t3 = t[THEN conjunct2, THEN conjunct2, THEN conjunct1]
  have "([''node_modules''], True) \<notin> set (tree_entries scenario_tree)"
    by (rule t1) (simp add: sk)
  moreover have "([''node_modules'', ''c.js''], False) \<notin> set (tree_entries scenario_tree)"
    by (rule t1) (simp add: sk)
  moreover have "([''src'', ''b.txt''], False) \<notin> set (tree_entries scenario_tree)"
    by (rule t2) (rule ext)
  moreover from t3 e have "([''src'', ''a.ts''], False) \<in> set (fs_entries scenario_fs)"
    by (rule subsetD)
  moreover have "set (file_leaves scenario_tree) = {(''a.ts'', ''.ts'')}"
    by (simp add: scenario_tree_def)
  ultimately show ?thesis using scenario_names_ok s by blast
qed

section \<open>Assembling before any scan\<close>

text \<open>
  C10. With no structure stored, \<open>generateProjectContext\<close> throws the error "Project has
  not been scanned yet" whatever the options, and leaves the manager, its cache
  included, and the \<open>RegExp\<close> objects as they were.
\<close>

theorem assemble_before_scan_fails_and_keeps_cache:
  assumes "projectStructure mgr = None"
  shows "generateProjectContext cwd d regs mgr options =
           (Inl (Error ''Project has not been scanned yet''), mgr, regs) \<and>
         fileCache (fst (snd (generateProjectContext cwd d regs mgr options))) = fileCache mgr"
  using assms by (simp add: generateProjectContext_def)

theorem assemble_before_scan_fails_and_keeps_cache_witness:
  "projectStructure new_ContextManager = None \<and>
   generateProjectContext ''/work'' \<lparr>readFile = Map.empty, statMtime = Map.empty\<rparr>
       no_regexps new_ContextManager
       \<lparr>maxFiles = 10, maxDepth = 3, includePatterns = [], excludePatterns = []\<rparr> =
     (Inl (Error ''Project has not been scanned yet''), new_ContextManager, no_regexps)"
proof -
  have h: "projectStructure new_ContextManager = None"
    by (simp add: new_ContextManager_def)
  from assemble_before_scan_fails_and_keeps_cache[OF h] h show ?thesis by blast
qed

section \<open>Selection: lemmas\<close>

lemma leaves_at_depth:
  "(p, k) \<in> set (leaves_at depth node) \<Longrightarrow> depth \<le> k"
  "(p, k) \<in> set (leaves_at_list depth nodes) \<Longrightarrow> depth \<le> k"
  by (induction depth node and depth nodes rule: leaves_at_leaves_at_list.induct) auto

lemma candidates_at_append:
  "candidates_at cwd regs options (xs @ ys) =
     candidates_at cwd regs options xs @ candidates_at cwd regs options ys"
  by (simp add: candidates_at_def)

lemma candidates_at_too_deep:
  assumes "\<forall>(p, k) \<in> set leaves. maxDepth options < k"
  shows "candidates_at cwd regs options leaves = []"
  using assms by (fastforce simp: candidates_at_def filter_empty_conv)

lemma candidates_at_update [simp]:
  "candidates_at cwd regs (options\<lparr>currentDepth := k\<rparr>) leaves = candidates_at cwd regs options leaves"
  by (simp add: candidates_at_def is_candidate_def)

lemma stateless_update [simp]:
  "stateless regs (options\<lparr>currentDepth := k\<rparr>) = stateless regs options"
  by (simp add: stateless_def)

lemma take_append_take: "take n (xs @ take n ys) = take n (xs @ ys)"
  by (simp add: min_def)

lemma slice0_take: "0 \<le> m \<Longrightarrow> slice0 xs m = take (nat m) xs"
  by (simp add: slice0_def)

lemma set_slice0: "set (slice0 xs m) \<subseteq> set xs"
  by (auto simp: slice0_def dest: in_set_takeD)

lemma length_slice0: "0 \<le> m \<Longrightarrow> length (slice0 xs m) \<le> nat m"
  by (simp add: slice0_def)

lemma slice0_Nil [simp]: "slice0 [] m = []"
  by (simp add: slice0_def)

text \<open>Patterns without state: the test is the match, and the objects stay as they are.\<close>

lemma matchesPattern_stateless:
  "stateless_pattern regs pattern \<Longrightarrow>
   matchesPattern regs path pattern = (pattern_matches regs path pattern, regs)"
  by (cases pattern) (simp_all add: regexp_test_def)

lemma somePattern_stateless:
  "list_all (stateless_pattern regs) patterns \<Longrightarrow>
   somePattern regs path patterns = (\<exists>pattern \<in> set patterns. pattern_matches regs path pattern, regs)"
  by (induction patterns) (simp_all add: matchesPattern_stateless)

text \<open>Whatever the patterns: what is selected comes from a leaf within the depth limit.\<close>

lemma selected_from_leaf_general:
  "\<forall>rf \<in> set (fst (findRelevantFiles cwd regs node options)).
     \<exists>p depth. (p, depth) \<in> set (leaves_at (currentDepth options) node) \<and>
       depth \<le> maxDepth options \<and>
       rf = \<lparr>rf_path = p, absolutePath = path_resolve cwd p\<rparr>"
  "\<forall>rf \<in> set (fst (findInChildren cwd regs nodes options results)).
     rf \<in> set results \<or>
     (\<exists>p depth. (p, depth) \<in> set (leaves_at_list (currentDepth options + 1) nodes) \<and>
       depth \<le> maxDepth options \<and>
       rf = \<lparr>rf_path = p, absolutePath = path_resolve cwd p\<rparr>)"
proof (induction cwd regs node options and cwd regs nodes options results
       rule: findRelevantFiles_findInChildren.induct)
  case (1 cwd regs name path children options)
  then show ?case by auto
next
  case (2 cwd regs name path extension options)
  show ?case by (auto simp: split_beta Let_def)
next
  case (3 cwd regs options results)
  show ?case by simp
next
  case (4 cwd regs child rest options results)
  let ?opts = "options\<lparr>currentDepth := currentDepth options + 1\<rparr>"
  show ?case
  proof (cases "int (length results) \<ge> maxFiles options")
    case True
    then show ?thesis by simp
  next
    case False
    obtain childResults regs' where c: "findRelevantFiles cwd regs child ?opts = (childResults, regs')"
      by (cases "findRelevantFiles cwd regs child ?opts")
    note ih1 = "4.IH"(1)[OF False, unfolded c fst_conv]
    note ih2 = "4.IH"(2)[OF False refl c[symmetric]]
    have run: "findInChildren cwd regs (child # rest) options results =
               findInChildren cwd regs' rest options (slice0 (results @ childResults) (maxFiles options))"
      using False c by simp
    show ?thesis
    proof
      fix rf
      assume "rf \<in> set (fst (findInChildren cwd regs (child # rest) options results))"
      with run ih2 have "rf \<in> set (slice0 (results @ childResults) (maxFiles options)) \<or>
        (\<exists>p depth. (p, depth) \<in> set (leaves_at_list (currentDepth options + 1) rest) \<and>
          depth \<le> maxDepth options \<and>
          rf = \<lparr>rf_path = p, absolutePath = path_resolve cwd p\<rparr>)" by simp
      then consider "rf \<in> set results" | "rf \<in> set childResults"
        | "\<exists>p depth. (p, depth) \<in> set (leaves_at_list (currentDepth options + 1) rest) \<and>
          depth \<le> maxDepth options \<and>
          rf = \<lparr>rf_path = p, absolutePath = path_resolve cwd p\<rparr>"
        using set_slice0[of "results @ childResults" "maxFiles options"] by auto
      then show "rf \<in> set results \<or>
        (\<exists>p depth. (p, depth) \<in> set (leaves_at_list (currentDepth options + 1) (child # rest)) \<and>
          depth \<le> maxDepth options \<and>
          rf = \<lparr>rf_path = p, absolutePath = path_resolve cwd p\<rparr>)"
      proof cases
        case 1
        then show ?thesis by simp
      next
        case 2
        with ih1 obtain p depth where
          "(p, depth) \<in> set (leaves_at (currentDepth options + 1) child)"
          "depth \<le> maxDepth options" "rf = \<lparr>rf_path = p, absolutePath = path_resolve cwd p\<rparr>"
          by auto
        then show ?thesis by auto
      next
        case 3
        then show ?thesis by auto
      qed
    qed
  qed
qed

lemma too_deep_nothing:
  "currentDepth options > maxDepth options \<Longrightarrow>
   findRelevantFiles cwd regs node options = ([], regs)"
  by (cases node) simp_all

lemma children_too_deep_nothing:
  "currentDepth options \<ge> maxDepth options \<Longrightarrow>
   findInChildren cwd regs nodes options [] = ([], regs)"
  by (induction nodes) (simp_all add: too_deep_nothing)

lemma directory_at_maxDepth_nothing:
  assumes "currentDepth options = maxDepth options"
  shows "findRelevantFiles cwd regs (Directory name path children) options = ([], regs)"
  using assms by (simp add: children_too_deep_nothing)




text \<open>
  With patterns that keep no state, the selection is the capped list of the candidates,
  and the \<open>RegExp\<close> objects stay as they are.
\<close>

lemma find_characterisation:
  "stateless regs options \<Longrightarrow>
   findRelevantFiles cwd regs node options =
     (if is_directory node
      then take (nat (maxFiles options))
             (candidates_at cwd regs options (leaves_at (currentDepth options) node))
      else candidates_at cwd regs options (leaves_at (currentDepth options) node),
      regs)"
  "stateless regs options \<Longrightarrow> length results \<le> nat (maxFiles options) \<Longrightarrow>
   findInChildren cwd regs nodes options results =
     (take (nat (maxFiles options))
        (results @ candidates_at cwd regs options (leaves_at_list (currentDepth options + 1) nodes)),
      regs)"
proof (induction cwd regs node options and cwd regs nodes options results
       rule: findRelevantFiles_findInChildren.induct)
  case (1 cwd regs name path children options)
  show ?case
  proof (cases "currentDepth options > maxDepth options")
    case True
    have "candidates_at cwd regs options (leaves_at_list (currentDepth options + 1) children) = []"
      using True leaves_at_depth(2) by (intro candidates_at_too_deep) fastforce
    with True show ?thesis by simp
  next
    case False
    with 1 show ?thesis by simp
  qed
next
  case (2 cwd regs name path extension options)
  then have i: "list_all (stateless_pattern regs) (includePatterns options)"
    and e: "list_all (stateless_pattern regs) (excludePatterns options)"
    by (simp_all add: stateless_def)
  show ?case
    by (auto simp: candidates_at_def is_candidate_def
        somePattern_stateless[OF i] somePattern_stateless[OF e])
next
  case (3 cwd regs options results)
  then show ?case by (simp add: candidates_at_def)
next
  case (4 cwd regs child rest options results)
  let ?M = "maxFiles options"
  let ?opts = "options\<lparr>currentDepth := currentDepth options + 1\<rparr>"
  let ?C = "candidates_at cwd regs options (leaves_at (currentDepth options + 1) child)"
  let ?R = "candidates_at cwd regs options (leaves_at_list (currentDepth options + 1) rest)"
  note st = "4.prems"(1)
  show ?case
  proof (cases "int (length results) \<ge> ?M")
    case True
    with "4.prems" have "take (nat ?M) (results @ ?C @ ?R) = results" by auto
    with True show ?thesis by (simp add: candidates_at_append)
  next
    case False
    then have pos: "0 \<le> ?M" by simp
    obtain childResults where c: "findRelevantFiles cwd regs child ?opts = (childResults, regs)"
      and child: "take (nat ?M) childResults = take (nat ?M) ?C"
      using "4.IH"(1)[OF False] st by (cases "is_directory child") simp_all
    have len: "length (slice0 (results @ childResults) ?M) \<le> nat ?M"
      using pos by (rule length_slice0)
    have "findInChildren cwd regs (child # rest) options results =
          findInChildren cwd regs rest options (slice0 (results @ childResults) ?M)"
      using False c by simp
    also have "\<dots> = (take (nat ?M) (slice0 (results @ childResults) ?M @ ?R), regs)"
      using "4.IH"(2)[OF False refl c[symmetric] st len] .
    also have "slice0 (results @ childResults) ?M =
               take (nat ?M) (results @ take (nat ?M) childResults)"
      using pos by (simp only: slice0_take take_append_take)
    also have "\<dots> = take (nat ?M) (results @ ?C)"
      by (simp only: child take_append_take)
    also have "take (nat ?M) (take (nat ?M) (results @ ?C) @ ?R) = take (nat ?M) (results @ ?C @ ?R)"
      by (simp add: min_def)
    finally show ?thesis by (simp add: candidates_at_append)
  qed
qed

section \<open>Reading through the cache: lemmas\<close>

lemma getFileContent_fst: "fst (getFileContent d cache p) = effective d cache p"
  by (simp add: getFileContent_def effective_def split: option.splits)

lemma getFileContent_effective:
  "effective d (snd (getFileContent d cache p)) q = effective d cache q"
  by (simp add: getFileContent_def effective_def split: option.splits)

lemma getFileContent_keeps:
  "cache q = Some v \<Longrightarrow> snd (getFileContent d cache p) q = Some v"
  by (auto simp: getFileContent_def split: option.splits)

lemma getFileContent_stores:
  "snd (getFileContent d cache p) p = effective d cache p"
  by (simp add: getFileContent_def effective_def split: option.splits)

lemma getFileContent_dom:
  "dom (snd (getFileContent d cache p)) \<subseteq> insert p (dom cache)"
  by (auto simp: getFileContent_def split: option.splits if_splits)

lemma getFileContext_fst: "fst (getFileContext d cache p) = context_of d cache p"
  by (simp add: getFileContext_def context_of_def split_beta getFileContent_fst)

lemma getFileContext_snd: "snd (getFileContext d cache p) = snd (getFileContent d cache p)"
  by (simp add: getFileContext_def split_beta)

lemma context_of_cong:
  "effective d cache' p = effective d cache p \<Longrightarrow> context_of d cache' p = context_of d cache p"
  by (simp add: context_of_def)

lemma getFileContexts_effective:
  "effective d (snd (getFileContexts d cache ps)) q = effective d cache q"
  by (induction ps arbitrary: cache)
     (simp_all add: split_beta getFileContext_snd getFileContent_effective)

lemma getFileContexts_fst:
  "fst (getFileContexts d cache ps) = map (context_of d cache) ps"
proof (induction ps arbitrary: cache)
  case Nil
  show ?case by simp
next
  case (Cons p ps)
  have "map (context_of d (snd (getFileContext d cache p))) ps = map (context_of d cache) ps"
    by (intro map_cong refl context_of_cong)
       (simp add: getFileContext_snd getFileContent_effective)
  with Cons show ?case by (simp add: split_beta getFileContext_fst)
qed

lemma getFileContexts_keeps:
  "cache q = Some v \<Longrightarrow> snd (getFileContexts d cache ps) q = Some v"
  by (induction ps arbitrary: cache)
     (simp_all add: split_beta getFileContext_snd getFileContent_keeps)

lemma getFileContexts_stores:
  "p \<in> set ps \<Longrightarrow> snd (getFileContexts d cache ps) p = effective d cache p"
proof (induction ps arbitrary: cache)
  case Nil
  then show ?case by simp
next
  case (Cons a ps)
  let ?c = "snd (getFileContent d cache a)"
  show ?case
  proof (cases "p \<in> set ps")
    case True
    with Cons.IH[of ?c] show ?thesis
      by (simp add: split_beta getFileContext_snd getFileContent_effective)
  next
    case False
    with Cons.prems have pa: "p = a" by simp
    show ?thesis
    proof (cases "effective d cache a")
      case None
      have "effective d (snd (getFileContexts d ?c ps)) a = None"
        by (simp add: getFileContexts_effective getFileContent_effective None)
      then have "snd (getFileContexts d ?c ps) a = None"
        by (simp add: effective_def split: option.splits)
      with None pa show ?thesis by (simp add: split_beta getFileContext_snd)
    next
      case (Some v)
      then have "?c a = Some v" by (simp add: getFileContent_stores)
      then have "snd (getFileContexts d ?c ps) a = Some v" by (rule getFileContexts_keeps)
      with Some pa show ?thesis by (simp add: split_beta getFileContext_snd)
    qed
  qed
qed

lemma getFileContexts_dom:
  "dom (snd (getFileContexts d cache ps)) \<subseteq> dom cache \<union> set ps"
proof (induction ps arbitrary: cache)
  case Nil
  show ?case by simp
next
  case (Cons a ps)
  from Cons[of "snd (getFileContent d cache a)"] getFileContent_dom[of d cache a]
  show ?case by (auto simp: split_beta getFileContext_snd)
qed

lemma promise_all_Inr: "promise_all rs = Inr vs \<Longrightarrow> rs = map Inr vs"
  by (induction rs arbitrary: vs rule: promise_all.induct) (auto split: sum.splits)

lemma promise_all_map_Inr: "promise_all (map Inr vs) = Inr vs"
  by (induction vs) auto

lemma promise_all_Inl: "promise_all rs = Inl e \<Longrightarrow> Inl e \<in> set rs"
  by (induction rs rule: promise_all.induct) (auto split: sum.splits)

lemma promise_all_rejects: "Inl e \<in> set rs \<Longrightarrow> \<exists>e'. promise_all rs = Inl e'"
  by (induction rs rule: promise_all.induct) (auto split: sum.splits)

lemma generateProjectContext_scanned:
  assumes "projectStructure mgr = Some tree"
  shows "generateProjectContext cwd d regs mgr options =
    (let paths = map absolutePath (selection cwd regs tree options);
         mgr' = mgr\<lparr>fileCache := snd (getFileContexts d (fileCache mgr) paths)\<rparr>;
         regs' = regexps_after cwd regs tree options
     in case promise_all (map (context_of d (fileCache mgr)) paths) of
          Inl e \<Rightarrow> (Inl e, mgr', regs')
        | Inr fileContexts \<Rightarrow>
            (Inr \<lparr>pc_projectStructure = tree,
                  relevantFiles = List.map_filter (\<lambda>context. context) fileContexts\<rparr>,
             mgr', regs'))"
  using assms
    getFileContexts_fst[of d "fileCache mgr" "map absolutePath (selection cwd regs tree options)"]
  by (simp add: generateProjectContext_def selection_def regexps_after_def Let_def split_beta)

section \<open>The assembled result: lemmas\<close>

lemma map_Inr_context_value:
  "map (context_of d cache) ps = map Inr vs \<Longrightarrow> vs = map (context_value d cache) ps"
  by (induction ps arbitrary: vs) (auto simp: context_value_def)

lemma context_value_Some:
  "context_value d cache p = Some fc \<Longrightarrow>
     fc_path fc = p \<and> effective d cache p = Some (fc_content fc) \<and> fc_content fc \<noteq> [] \<and>
     statMtime d p = Some (lastModified fc) \<and> fc_extension fc = path_extname p"
  by (auto simp: context_value_def context_of_def split: option.splits sum.splits if_splits)

lemma context_value_None_readable:
  "context_of d cache p = Inr v \<Longrightarrow> (v = None) = (\<not> readable d cache p)"
  by (auto simp: context_of_def readable_def split: option.splits if_splits)

lemma map_filter_paths:
  "\<forall>p \<in> set ps. \<exists>v. context_of d cache p = Inr v \<Longrightarrow>
   map fc_path (List.map_filter (context_value d cache) ps) = filter (readable d cache) ps"
proof (induction ps)
  case Nil
  show ?case by (simp add: map_filter_simps)
next
  case (Cons p ps)
  then obtain v where v: "context_of d cache p = Inr v" by auto
  show ?case
  proof (cases v)
    case None
    with v have "\<not> readable d cache p" "context_value d cache p = None"
      using context_value_None_readable[OF v] by (simp_all add: context_value_def)
    with Cons show ?thesis by (simp add: map_filter_simps)
  next
    case (Some fc)
    with v have r: "readable d cache p" and cv: "context_value d cache p = Some fc"
      using context_value_None_readable[OF v] by (simp_all add: context_value_def)
    from context_value_Some[OF cv] have "fc_path fc = p" by simp
    with Cons r cv show ?thesis by (simp add: map_filter_simps)
  qed
qed

lemma map_filter_id_map: "List.map_filter (\<lambda>x. x) (map f xs) = List.map_filter f xs"
  by (induction xs) (simp_all split: option.splits)


lemma set_map_filter: "set (List.map_filter f xs) = {y. \<exists>x \<in> set xs. f x = Some y}"
  by (induction xs) (auto simp: map_filter_simps split: option.splits)

lemma assemble_success:
  assumes "projectStructure mgr = Some tree"
    and "generateProjectContext cwd d regs mgr options = (Inr ctx, mgr', regs')"
  shows "relevantFiles ctx =
           List.map_filter (context_value d (fileCache mgr))
             (map absolutePath (selection cwd regs tree options))"
    and "\<forall>p \<in> set (map absolutePath (selection cwd regs tree options)).
           \<exists>v. context_of d (fileCache mgr) p = Inr v"
    and "pc_projectStructure ctx = tree"
proof -
  let ?paths = "map absolutePath (selection cwd regs tree options)"
  let ?rs = "map (context_of d (fileCache mgr)) ?paths"
  from assms obtain vs where pa: "promise_all ?rs = Inr vs"
    and ctx: "ctx = \<lparr>pc_projectStructure = tree,
                     relevantFiles = List.map_filter (\<lambda>context. context) vs\<rparr>"
    by (auto simp: generateProjectContext_scanned Let_def split: sum.splits)
  from promise_all_Inr[OF pa] have rs: "?rs = map Inr vs" .
  then have vs: "vs = map (context_value d (fileCache mgr)) ?paths"
    by (rule map_Inr_context_value)
  show "relevantFiles ctx = List.map_filter (context_value d (fileCache mgr)) ?paths"
    by (simp only: ctx vs map_filter_id_map project_context.select_convs)
  show "\<forall>p \<in> set ?paths. \<exists>v. context_of d (fileCache mgr) p = Inr v"
  proof
    fix p assume "p \<in> set ?paths"
    then have "context_of d (fileCache mgr) p \<in> set ?rs" by auto
    with rs show "\<exists>v. context_of d (fileCache mgr) p = Inr v" by auto
  qed
  show "pc_projectStructure ctx = tree" by (simp add: ctx)
qed

lemma assemble_cache:
  assumes "projectStructure mgr = Some tree"
  shows "fileCache (fst (snd (generateProjectContext cwd d regs mgr options))) =
           snd (getFileContexts d (fileCache mgr)
                  (map absolutePath (selection cwd regs tree options)))"
    and "projectStructure (fst (snd (generateProjectContext cwd d regs mgr options))) = Some tree"
    and "snd (snd (generateProjectContext cwd d regs mgr options)) =
           regexps_after cwd regs tree options"
  using assms by (auto simp: generateProjectContext_scanned Let_def split: sum.splits)

lemma stateless_find_options:
  "stateless regs
     \<lparr>maxFiles = maxFiles options, maxDepth = maxDepth options,
      includePatterns = includePatterns options,
      excludePatterns = excludePatterns options, currentDepth = 0\<rparr> =
   stateless regs options"
  by (simp add: stateless_def)



section \<open>Candidates\<close>

lemma startsWith_iff: "startsWith s pat \<longleftrightarrow> (\<exists>rest. s = pat @ rest)"
  by (induction s pat rule: startsWith.induct) auto

lemma str_includes_iff: "str_includes s pat \<longleftrightarrow> (\<exists>front rest. s = front @ pat @ rest)"
proof (induction s)
  case Nil
  show ?case by auto
next
  case (Cons c cs)
  show ?case
  proof
    assume "str_includes (c # cs) pat"
    then consider "startsWith (c # cs) pat" | "str_includes cs pat" by auto
    then show "\<exists>front rest. c # cs = front @ pat @ rest"
    proof cases
      case 1
      then obtain rest where "c # cs = pat @ rest" by (auto simp: startsWith_iff)
      then have "c # cs = [] @ pat @ rest" by simp
      then show ?thesis by blast
    next
      case 2
      with Cons obtain front rest where "cs = front @ pat @ rest" by blast
      then have "c # cs = (c # front) @ pat @ rest" by simp
      then show ?thesis by blast
    qed
  next
    assume "\<exists>front rest. c # cs = front @ pat @ rest"
    then obtain front rest where e: "c # cs = front @ pat @ rest" by blast
    show "str_includes (c # cs) pat"
    proof (cases front)
      case Nil
      with e have "startsWith (c # cs) pat" by (auto simp: startsWith_iff)
      then show ?thesis by simp
    next
      case (Cons f fs)
      with e have "cs = fs @ pat @ rest" by simp
      with Cons.IH have "str_includes cs pat" by blast
      then show ?thesis by simp
    qed
  qed
qed

text \<open>
  With patterns that keep no state, a file leaf the traversal reaches is selected if and
  only if the include patterns are empty or its path matches one of them, and its path
  matches no exclude pattern; and nothing selected from a structure matches an exclude
  pattern.
\<close>

lemma stateless_candidate_iff:
  assumes "stateless regs options" and "currentDepth options \<le> maxDepth options"
  shows "findRelevantFiles cwd regs (File name path extension) options =
        (if (includePatterns options = [] \<or>
             (\<exists>pattern \<in> set (includePatterns options). pattern_matches regs path pattern)) \<and>
            \<not> (\<exists>pattern \<in> set (excludePatterns options). pattern_matches regs path pattern)
         then [\<lparr>rf_path = path, absolutePath = path_resolve cwd path\<rparr>]
         else [], regs)"
  using find_characterisation(1)[OF assms(1), of cwd "File name path extension"] assms(2)
  by (simp add: candidates_at_def is_candidate_def del: findRelevantFiles.simps)

lemma stateless_selected_are_candidates:
  assumes "stateless regs options"
    and "rf \<in> set (fst (findRelevantFiles cwd regs tree options))"
  shows "is_candidate regs options (rf_path rf)"
proof -
  have "set (fst (findRelevantFiles cwd regs tree options)) \<subseteq>
        set (candidates_at cwd regs options (leaves_at (currentDepth options) tree))"
    by (auto simp: find_characterisation(1)[OF assms(1)] dest: in_set_takeD)
  with assms(2) show ?thesis by (auto simp: candidates_at_def)
qed


section \<open>The depth limit\<close>

text \<open>The structure a scan stores always has a directory as its root.\<close>

lemma scanProject_stores_directory:
  assumes "scanProject fs mgr projectRoot = (Inr tree, mgr')"
  shows "is_directory tree \<and> projectStructure mgr' = Some tree"
proof -
  from assms have b: "buildProjectStructure fs projectRoot [] = Inr tree"
    by (simp add: scanProject_def split: sum.splits)
  then have "is_directory tree"
    by (cases fs) (auto split: sum.splits)
  moreover from assms b have "projectStructure mgr' = Some tree"
    by (auto simp: scanProject_def)
  ultimately show ?thesis by simp
qed

lemma selected_from_leaf:
  assumes "rf \<in> set (fst (findRelevantFiles cwd regs tree options))"
  shows "\<exists>p depth. (p, depth) \<in> set (leaves_at (currentDepth options) tree) \<and>
           depth \<le> maxDepth options \<and>
           rf = \<lparr>rf_path = p, absolutePath = path_resolve cwd p\<rparr>"
  using selected_from_leaf_general(1)[of cwd regs tree options] assms by blast

lemma selection_from_leaf:
  assumes "rf \<in> set (selection cwd regs tree policy)"
  shows "\<exists>p depth. (p, depth) \<in> set (leaves_at 0 tree) \<and>
           depth \<le> maxDepth policy \<and>
           rf = \<lparr>rf_path = p, absolutePath = path_resolve cwd p\<rparr>"
  using selected_from_leaf[OF assms[unfolded selection_def]] by simp

lemma result_file_selected:
  assumes "projectStructure mgr = Some tree"
    and "generateProjectContext cwd d regs mgr policy = (Inr ctx, mgr', regs')"
    and "fc \<in> set (relevantFiles ctx)"
  shows "\<exists>rf \<in> set (selection cwd regs tree policy).
           fc_path fc = absolutePath rf \<and>
           context_value d (fileCache mgr) (absolutePath rf) = Some fc"
proof -
  from assms(3) assemble_success(1)[OF assms(1,2)]
  obtain p where "p \<in> set (map absolutePath (selection cwd regs tree policy))"
    and cv: "context_value d (fileCache mgr) p = Some fc"
    by (auto simp: set_map_filter)
  then obtain rf where "rf \<in> set (selection cwd regs tree policy)" "p = absolutePath rf"
    by auto
  with cv context_value_Some[OF cv] show ?thesis by auto
qed

text \<open>
  C3. No file that \<open>findRelevantFiles\<close> selects lies deeper than \<open>maxDepth\<close>, the root being
  at depth 0: every selected file is a leaf of the structure at a depth of at most
  \<open>maxDepth\<close>. A call at a depth beyond \<open>maxDepth\<close> returns nothing and tries no pattern, so
  a directory at depth \<open>maxDepth\<close> is entered and yields nothing from its children. The
  same holds for the files of the result of \<open>generateProjectContext\<close>, and with
  \<open>maxDepth = 0\<close> a structure whose root is a directory, as every scanned structure is,
  yields no file at all.
\<close>

theorem selected_files_within_maxDepth:
  "(\<forall>file \<in> set (fst (findRelevantFiles cwd regs node options)).
      \<exists>depth. (rf_path file, depth) \<in> set (leaves_at (currentDepth options) node) \<and>
              depth \<le> maxDepth options) \<and>
   (currentDepth options > maxDepth options \<longrightarrow>
      findRelevantFiles cwd regs node options = ([], regs)) \<and>
   (currentDepth options = maxDepth options \<longrightarrow>
      findRelevantFiles cwd regs (Directory name path children) options = ([], regs)) \<and>
   (projectStructure mgr = Some tree \<and>
    generateProjectContext cwd d regs mgr policy = (Inr ctx, mgr', regs') \<longrightarrow>
      (\<forall>fc \<in> set (relevantFiles ctx).
         \<exists>p depth. (p, depth) \<in> set (leaves_at 0 tree) \<and> depth \<le> maxDepth policy \<and>
                   fc_path fc = path_resolve cwd p) \<and>
      (is_directory tree \<and> maxDepth policy = 0 \<longrightarrow>
         selection cwd regs tree policy = [] \<and> relevantFiles ctx = []))"
proof (intro conjI impI ballI)
  fix rf
  assume "rf \<in> set (fst (findRelevantFiles cwd regs node options))"
  from selected_from_leaf[OF this]
  show "\<exists>depth. (rf_path rf, depth) \<in> set (leaves_at (currentDepth options) node) \<and>
              depth \<le> maxDepth options"
    by auto
next
  assume "currentDepth options > maxDepth options"
  then show "findRelevantFiles cwd regs node options = ([], regs)" by (rule too_deep_nothing)
next
  assume "currentDepth options = maxDepth options"
  then show "findRelevantFiles cwd regs (Directory name path children) options = ([], regs)"
    by (rule directory_at_maxDepth_nothing)
next
  fix fc
  assume a: "projectStructure mgr = Some tree \<and>
             generateProjectContext cwd d regs mgr policy = (Inr ctx, mgr', regs')"
    and fc: "fc \<in> set (relevantFiles ctx)"
  from result_file_selected[OF a[THEN conjunct1] a[THEN conjunct2] fc]
  obtain rf where f: "rf \<in> set (selection cwd regs tree policy)" "fc_path fc = absolutePath rf"
    by blast
  from selection_from_leaf[OF f(1)]
  obtain p depth where "(p, depth) \<in> set (leaves_at 0 tree)" "depth \<le> maxDepth policy"
    "rf = \<lparr>rf_path = p, absolutePath = path_resolve cwd p\<rparr>"
    by blast
  with f(2) have "(p, depth) \<in> set (leaves_at 0 tree) \<and> depth \<le> maxDepth policy \<and>
                   fc_path fc = path_resolve cwd p"
    by simp
  then show "\<exists>p depth. (p, depth) \<in> set (leaves_at 0 tree) \<and> depth \<le> maxDepth policy \<and>
                   fc_path fc = path_resolve cwd p"
    by blast
next
  assume a: "projectStructure mgr = Some tree \<and>
             generateProjectContext cwd d regs mgr policy = (Inr ctx, mgr', regs')"
    and b: "is_directory tree \<and> maxDepth policy = 0"
  from b obtain name path children where t: "tree = Directory name path children"
    by (cases tree) auto
  from b show s: "selection cwd regs tree policy = []"
    unfolding t selection_def by (subst directory_at_maxDepth_nothing) simp_all
  from assemble_success(1)[OF a[THEN conjunct1] a[THEN conjunct2]] s
  show "relevantFiles ctx = []" by simp
qed

lemma sample_manager_structure: "projectStructure sample_manager = Some sample_tree"
  by (simp add: sample_manager_def)

lemma sample_tree_directory: "is_directory sample_tree"
  by (simp add: sample_tree_def)

lemma fst_generate_eq:
  "fst (generateProjectContext cwd d regs mgr policy) = r \<Longrightarrow>
   generateProjectContext cwd d regs mgr policy =
     (r, fst (snd (generateProjectContext cwd d regs mgr policy)),
      snd (snd (generateProjectContext cwd d regs mgr policy)))"
  by (simp add: prod_eq_iff)

theorem selected_files_within_maxDepth_witness:
  "projectStructure sample_manager = Some sample_tree \<and>
   fst (generateProjectContext ''/proj'' sample_disk no_regexps sample_manager
          (default_policy\<lparr>maxDepth := 0\<rparr>)) =
     Inr \<lparr>pc_projectStructure = sample_tree, relevantFiles = []\<rparr> \<and>
   is_directory sample_tree \<and>
   maxDepth (default_policy\<lparr>maxDepth := 0\<rparr>) = 0 \<and>
   selection ''/proj'' no_regexps sample_tree (default_policy\<lparr>maxDepth := 0\<rparr>) = [] \<and>
   (''src/deep/y.ts'', 3) \<in> set (leaves_at 0 sample_tree) \<and>
   map rf_path (selection ''/proj'' no_regexps sample_tree (default_policy\<lparr>maxDepth := 2\<rparr>)) =
     [''index.js'', ''src/x.ts'', ''src/x.test.ts'', ''z.css'']"
proof -
  let ?p0 = "default_policy\<lparr>maxDepth := 0\<rparr>"
  have g: "fst (generateProjectContext ''/proj'' sample_disk no_regexps sample_manager ?p0) =
     Inr \<lparr>pc_projectStructure = sample_tree, relevantFiles = []\<rparr>"
    by code_simp
  have m: "maxDepth ?p0 = 0" by simp
  have l: "(''src/deep/y.ts'', 3) \<in> set (leaves_at 0 sample_tree)"
    by (simp add: sample_tree_def)
  have s2: "map rf_path (selection ''/proj'' no_regexps sample_tree (default_policy\<lparr>maxDepth := 2\<rparr>)) =
     [''index.js'', ''src/x.ts'', ''src/x.test.ts'', ''z.css'']"
    by code_simp
  note t = selected_files_within_maxDepth[where cwd = "''/proj''" and regs = no_regexps
      and mgr = sample_manager and tree = sample_tree and d = sample_disk and policy = ?p0
      and ctx = "\<lparr>pc_projectStructure = sample_tree, relevantFiles = []\<rparr>"
      and mgr' = "fst (snd (generateProjectContext ''/proj'' sample_disk no_regexps sample_manager ?p0))"
      and regs' = "snd (snd (generateProjectContext ''/proj'' sample_disk no_regexps sample_manager ?p0))"]
  from t[THEN conjunct2, THEN conjunct2, THEN conjunct2, rule_format,
         OF conjI[OF sample_manager_structure fst_generate_eq[OF g]], THEN conjunct2, rule_format,
         OF conjI[OF sample_tree_directory m]]
  have "selection ''/proj'' no_regexps sample_tree ?p0 = []" by simp
  with g m l s2 sample_manager_structure sample_tree_directory show ?thesis by simp
qed

section \<open>C2: the selection is the capped list of the candidates\<close>






section \<open>The paths that are read\<close>

lemma scan_root_independent:
  "fs_names_ok fs \<longrightarrow> (\<forall>t dir2. buildProjectStructure fs dir rel = Inr t \<longrightarrow>
      (\<exists>cs. t = Directory (path_basename dir) rel cs \<and>
            buildProjectStructure fs dir2 rel = Inr (Directory (path_basename dir2) rel cs)))"
  "listing_names_ok es \<longrightarrow> (\<forall>cs dir2. scanEntries es dir rel = Inr cs \<longrightarrow>
      scanEntries es dir2 rel = Inr cs)"
proof (induction fs dir rel and es dir rel rule: buildProjectStructure_scanEntries.induct)
  case (1 entries dir relativePath)
  show ?case
  proof (intro impI allI)
    fix t dir2
    assume ok: "fs_names_ok (FsDir entries)"
      and run: "buildProjectStructure (FsDir entries) dir relativePath = Inr t"
    from run obtain cs where cs: "scanEntries entries dir relativePath = Inr cs"
      and t: "t = Directory (path_basename dir) relativePath cs"
      by (auto split: sum.splits)
    from ok have "listing_names_ok entries" by simp
    from "1.IH"[rule_format, OF this cs, of dir2]
    have "buildProjectStructure (FsDir entries) dir2 relativePath =
            Inr (Directory (path_basename dir2) relativePath cs)"
      by simp
    with t show "\<exists>cs. t = Directory (path_basename dir) relativePath cs \<and>
            buildProjectStructure (FsDir entries) dir2 relativePath =
              Inr (Directory (path_basename dir2) relativePath cs)"
      by blast
  qed
next
  case (2 dir relativePath)
  then show ?case by simp
next
  case (3 dir relativePath)
  then show ?case by simp
next
  case (4 dir relativePath)
  then show ?case by simp
next
  case (5 name sub rest dir relativePath)
  show ?case
  proof (intro impI allI)
    fix cs dir2
    assume ok: "listing_names_ok ((name, sub) # rest)"
      and run: "scanEntries ((name, sub) # rest) dir relativePath = Inr cs"
    from ok have nm: "entry_name_ok name" "fs_names_ok sub" "listing_names_ok rest"
      by simp_all
    show "scanEntries ((name, sub) # rest) dir2 relativePath = Inr cs"
    proof (cases "skipped name")
      case True
      with run have "scanEntries rest dir relativePath = Inr cs" by simp
      from "5.IH"(1)[OF refl refl True, rule_format, OF nm(3) this, of dir2] True
      show ?thesis by simp
    next
      case ns: False
      show ?thesis
      proof (cases "isDirectory sub")
        case True
        from run ns True obtain t cs' where
          t: "buildProjectStructure sub (path_join dir name) (path_join relativePath name) = Inr t"
          and cs': "scanEntries rest dir relativePath = Inr cs'"
          and cs: "cs = t # cs'"
          by (auto simp: Let_def split: sum.splits)
        from "5.IH"(2)[OF refl refl ns True, rule_format, OF nm(2) t, of "path_join dir2 name"]
        obtain cs0 where "t = Directory (path_basename (path_join dir name))
                               (path_join relativePath name) cs0"
          and "buildProjectStructure sub (path_join dir2 name) (path_join relativePath name) =
                 Inr (Directory (path_basename (path_join dir2 name))
                        (path_join relativePath name) cs0)"
          by blast
        then have "buildProjectStructure sub (path_join dir2 name) (path_join relativePath name) = Inr t"
          using nm(1) by (simp add: path_basename_join)
        moreover from "5.IH"(3)[OF refl refl ns True t, rule_format, OF nm(3) cs', of dir2]
        have "scanEntries rest dir2 relativePath = Inr cs'" .
        ultimately show ?thesis using ns True by (simp add: cs Let_def)
      next
        case nd: False
        show ?thesis
        proof (cases "toLowerCase (path_extname name) \<in> set codeExtensions")
          case True
          from run ns nd True obtain cs' where
            cs': "scanEntries rest dir relativePath = Inr cs'"
            and cs: "cs = File name (path_join relativePath name) (toLowerCase (path_extname name)) # cs'"
            by (auto simp: Let_def split: sum.splits)
          from "5.IH"(4)[OF refl refl ns nd refl True, rule_format, OF nm(3) cs', of dir2]
          show ?thesis using ns nd True by (simp add: cs Let_def)
        next
          case False
          with run ns nd have "scanEntries rest dir relativePath = Inr cs"
            by (simp add: Let_def)
          from "5.IH"(5)[OF refl refl ns nd refl False, rule_format, OF nm(3) this, of dir2]
          show ?thesis using ns nd False by (simp add: Let_def)
        qed
      qed
    qed
  qed
qed

lemma scanProject_Inr:
  "scanProject fs mgr projectRoot = (Inr tree, mgr') \<Longrightarrow>
   buildProjectStructure fs projectRoot [] = Inr tree"
  by (simp add: scanProject_def split: sum.splits)

lemma selection_ignores_root_name:
  "selection cwd regs (Directory name1 path children) policy =
   selection cwd regs (Directory name2 path children) policy"
  by (simp add: selection_def)

lemma selection_after_scan_root_independent:
  assumes "fs_names_ok fs" and "scanProject fs mgr0 root1 = (Inr t1, mgr1)"
  shows "\<exists>t2 mgr2. scanProject fs mgr0 root2 = (Inr t2, mgr2) \<and>
           selection cwd regs t2 policy = selection cwd regs t1 policy"
proof -
  from assms(2) have b: "buildProjectStructure fs root1 [] = Inr t1" by (rule scanProject_Inr)
  from scan_root_independent(1)[rule_format, OF assms(1) b, of root2]
  obtain cs where t1: "t1 = Directory (path_basename root1) [] cs"
    and b2: "buildProjectStructure fs root2 [] = Inr (Directory (path_basename root2) [] cs)"
    by blast
  have "scanProject fs mgr0 root2 =
          (Inr (Directory (path_basename root2) [] cs),
           mgr0\<lparr>projectStructure := Some (Directory (path_basename root2) [] cs)\<rparr>)"
    by (simp add: scanProject_def b2)
  moreover have "selection cwd regs (Directory (path_basename root2) [] cs) policy =
                 selection cwd regs t1 policy"
    unfolding t1 by (rule selection_ignores_root_name)
  ultimately show ?thesis by blast
qed

lemma result_file_content:
  assumes "projectStructure mgr = Some tree"
    and "generateProjectContext cwd d regs mgr policy = (Inr ctx, mgr', regs')"
    and "fc \<in> set (relevantFiles ctx)"
  shows "\<exists>rf \<in> set (selection cwd regs tree policy).
           fc_path fc = path_resolve cwd (rf_path rf) \<and>
           effective d (fileCache mgr) (path_resolve cwd (rf_path rf)) = Some (fc_content fc)"
proof -
  from result_file_selected[OF assms]
  obtain rf where rf: "rf \<in> set (selection cwd regs tree policy)"
    "fc_path fc = absolutePath rf"
    "context_value d (fileCache mgr) (absolutePath rf) = Some fc"
    by blast
  from selection_from_leaf[OF rf(1)] have a: "absolutePath rf = path_resolve cwd (rf_path rf)"
    by auto
  from context_value_Some[OF rf(3)] have "effective d (fileCache mgr) (absolutePath rf) = Some (fc_content fc)"
    by simp
  with rf(1,2) a show ?thesis by auto
qed

lemma cache_keys_after_assemble:
  assumes "projectStructure mgr = Some tree"
  shows "dom (fileCache (fst (snd (generateProjectContext cwd d regs mgr policy)))) \<subseteq>
           dom (fileCache mgr) \<union> path_resolve cwd ` rf_path ` set (selection cwd regs tree policy)"
proof -
  have "set (map absolutePath (selection cwd regs tree policy)) \<subseteq>
        path_resolve cwd ` rf_path ` set (selection cwd regs tree policy)"
  proof
    fix p assume "p \<in> set (map absolutePath (selection cwd regs tree policy))"
    then obtain rf where rf: "rf \<in> set (selection cwd regs tree policy)" "p = absolutePath rf" by auto
    from selection_from_leaf[OF rf(1)] rf(2) have "p = path_resolve cwd (rf_path rf)" by auto
    with rf(1) show "p \<in> path_resolve cwd ` rf_path ` set (selection cwd regs tree policy)" by blast
  qed
  with getFileContexts_dom[of d "fileCache mgr" "map absolutePath (selection cwd regs tree policy)"]
  show ?thesis unfolding assemble_cache(1)[OF assms] by blast
qed

text \<open>
  C7. The absolute path of a selected file, which is the key of the cache and the path
  that is read, is the file's path relative to the scanned root resolved against the
  working directory of the process (\<open>path.resolve(node.path)\<close>): the scanned root takes no
  part in it. The cache gains keys of that form only, the content of a file of the
  result is what cache and disk hold at that path, and the same directory scanned under
  another root path leads to the very same selection.
\<close>

theorem absolute_path_resolved_against_cwd:
  "(\<forall>rf \<in> set (fst (findRelevantFiles cwd regs node options)).
      absolutePath rf = path_resolve cwd (rf_path rf)) \<and>
   (projectStructure mgr = Some tree \<and>
    generateProjectContext cwd d regs mgr policy = (result, mgr', regs') \<longrightarrow>
      dom (fileCache mgr') \<subseteq>
        dom (fileCache mgr) \<union> path_resolve cwd ` rf_path ` set (selection cwd regs tree policy) \<and>
      (\<forall>ctx. result = Inr ctx \<longrightarrow>
         (\<forall>fc \<in> set (relevantFiles ctx). \<exists>rf \<in> set (selection cwd regs tree policy).
            fc_path fc = path_resolve cwd (rf_path rf) \<and>
            effective d (fileCache mgr) (path_resolve cwd (rf_path rf)) = Some (fc_content fc)))) \<and>
   (fs_names_ok fs \<and> scanProject fs mgr0 root1 = (Inr tree1, mgr1) \<longrightarrow>
      (\<exists>tree2 mgr2. scanProject fs mgr0 root2 = (Inr tree2, mgr2) \<and>
         selection cwd regs tree2 policy = selection cwd regs tree1 policy))"
proof (intro conjI impI allI ballI)
  fix rf
  assume "rf \<in> set (fst (findRelevantFiles cwd regs node options))"
  from selected_from_leaf[OF this] show "absolutePath rf = path_resolve cwd (rf_path rf)"
    by auto
next
  assume a: "projectStructure mgr = Some tree \<and>
             generateProjectContext cwd d regs mgr policy = (result, mgr', regs')"
  then have "mgr' = fst (snd (generateProjectContext cwd d regs mgr policy))" by simp
  with cache_keys_after_assemble[OF a[THEN conjunct1], of cwd d regs policy]
  show "dom (fileCache mgr') \<subseteq>
        dom (fileCache mgr) \<union> path_resolve cwd ` rf_path ` set (selection cwd regs tree policy)"
    by simp
next
  fix ctx fc
  assume a: "projectStructure mgr = Some tree \<and>
             generateProjectContext cwd d regs mgr policy = (result, mgr', regs')"
    and r: "result = Inr ctx" and fc: "fc \<in> set (relevantFiles ctx)"
  from a r have g: "generateProjectContext cwd d regs mgr policy = (Inr ctx, mgr', regs')" by simp
  from result_file_content[OF a[THEN conjunct1] g fc]
  show "\<exists>rf \<in> set (selection cwd regs tree policy).
            fc_path fc = path_resolve cwd (rf_path rf) \<and>
            effective d (fileCache mgr) (path_resolve cwd (rf_path rf)) = Some (fc_content fc)" .
next
  assume a: "fs_names_ok fs \<and> scanProject fs mgr0 root1 = (Inr tree1, mgr1)"
  from selection_after_scan_root_independent[OF a[THEN conjunct1] a[THEN conjunct2]]
  show "\<exists>tree2 mgr2. scanProject fs mgr0 root2 = (Inr tree2, mgr2) \<and>
         selection cwd regs tree2 policy = selection cwd regs tree1 policy" .
qed

theorem absolute_path_resolved_against_cwd_witness:
  "fs_names_ok scenario_fs \<and>
   scanProject scenario_fs new_ContextManager ''/proj'' = (Inr scenario_tree, scanned_manager) \<and>
   projectStructure scanned_manager = Some scenario_tree \<and>
   selection ''/work'' no_regexps scenario_tree default_policy =
     [\<lparr>rf_path = ''src/a.ts'', absolutePath = ''/work/src/a.ts''\<rparr>] \<and>
   path_resolve ''/work'' ''src/a.ts'' = ''/work/src/a.ts'' \<and>
   fst (generateProjectContext ''/work'' two_places_disk no_regexps scanned_manager default_policy) =
     Inr \<lparr>pc_projectStructure = scenario_tree, relevantFiles =
       [\<lparr>fc_path = ''/work/src/a.ts'', fc_content = ''elsewhere'', fc_extension = ''.ts'',
         lastModified = 200\<rparr>]\<rparr> \<and>
   fst (generateProjectContext ''/work'' project_only_disk no_regexps scanned_manager default_policy) =
     Inr \<lparr>pc_projectStructure = scenario_tree, relevantFiles = []\<rparr>"
proof -
  have s: "scanProject scenario_fs new_ContextManager ''/proj'' = (Inr scenario_tree, scanned_manager)"
    by (simp add: scanProject_def scenario_scan scanned_manager_def)
  have m: "projectStructure scanned_manager = Some scenario_tree"
    by (simp add: scanned_manager_def)
  have sel: "selection ''/work'' no_regexps scenario_tree default_policy =
     [\<lparr>rf_path = ''src/a.ts'', absolutePath = ''/work/src/a.ts''\<rparr>]"
    by code_simp
  have g1: "fst (generateProjectContext ''/work'' two_places_disk no_regexps scanned_manager default_policy) =
     Inr \<lparr>pc_projectStructure = scenario_tree, relevantFiles =
       [\<lparr>fc_path = ''/work/src/a.ts'', fc_content = ''elsewhere'', fc_extension = ''.ts'',
         lastModified = 200\<rparr>]\<rparr>"
    by code_simp
  have g2: "fst (generateProjectContext ''/work'' project_only_disk no_regexps scanned_manager default_policy) =
     Inr \<lparr>pc_projectStructure = scenario_tree, relevantFiles = []\<rparr>"
    by code_simp
  have "\<lparr>rf_path = ''src/a.ts'', absolutePath = ''/work/src/a.ts''\<rparr> \<in>
        set (fst (findRelevantFiles ''/work'' no_regexps scenario_tree
          \<lparr>maxFiles = maxFiles default_policy, maxDepth = maxDepth default_policy,
           includePatterns = includePatterns default_policy,
           excludePatterns = excludePatterns default_policy, currentDepth = 0\<rparr>))"
    using sel by (simp add: selection_def)
  from absolute_path_resolved_against_cwd[THEN conjunct1, rule_format, OF this]
  have "path_resolve ''/work'' ''src/a.ts'' = ''/work/src/a.ts''" by simp
  with s m sel g1 g2 scenario_names_ok show ?thesis by simp
qed

section \<open>Files that cannot be read, and empty files\<close>

text \<open>
  Where \<open>fs.statSync\<close> succeeds on every selected file that has a content, the call
  returns, and its files are the selected files that have a content: a file whose read
  fails is dropped and the others stay.
\<close>

lemma promise_all_fulfilled:
  "\<forall>r \<in> set rs. \<exists>v. r = Inr v \<Longrightarrow> \<exists>vs. promise_all rs = Inr vs"
proof (induction rs)
  case Nil
  show ?case by simp
next
  case (Cons r rs)
  then obtain v vs where "r = Inr v" "promise_all rs = Inr vs" by auto
  then show ?case by simp
qed

lemma context_of_fulfilled:
  "(readable d cache p \<longrightarrow> statMtime d p \<noteq> None) \<Longrightarrow> \<exists>v. context_of d cache p = Inr v"
  by (auto simp: context_of_def readable_def split: option.splits)

lemma unreadable_files_are_dropped:
  assumes "projectStructure mgr = Some tree"
    and "\<forall>p \<in> set (map absolutePath (selection cwd regs tree policy)).
           readable d (fileCache mgr) p \<longrightarrow> statMtime d p \<noteq> None"
  shows "\<exists>ctx mgr' regs'. generateProjectContext cwd d regs mgr policy = (Inr ctx, mgr', regs') \<and>
           map fc_path (relevantFiles ctx) =
             filter (readable d (fileCache mgr)) (map absolutePath (selection cwd regs tree policy))"
proof -
  let ?paths = "map absolutePath (selection cwd regs tree policy)"
  have "\<forall>r \<in> set (map (context_of d (fileCache mgr)) ?paths). \<exists>v. r = Inr v"
    using assms(2) context_of_fulfilled[of d "fileCache mgr"] by auto
  from promise_all_fulfilled[OF this]
  obtain vs where "promise_all (map (context_of d (fileCache mgr)) ?paths) = Inr vs" by blast
  then obtain ctx mgr' regs' where g: "generateProjectContext cwd d regs mgr policy = (Inr ctx, mgr', regs')"
    using generateProjectContext_scanned[OF assms(1), of cwd d regs policy] by (simp add: Let_def)
  note a = assemble_success[OF assms(1) g]
  have "map fc_path (relevantFiles ctx) = filter (readable d (fileCache mgr)) ?paths"
    unfolding a(1) using a(2) by (rule map_filter_paths)
  with g show ?thesis by blast
qed

text \<open>
  C5. A file that cannot be read should be dropped without failing the call. A run on
  which the program fails: the larger project is scanned and assembled once, which puts
  \<open>src/x.ts\<close> in the cache; then \<open>src/x.ts\<close> is deleted. The next call of
  \<open>generateProjectContext\<close> takes the content from the cache, \<open>fs.statSync\<close> throws, and the
  whole call is rejected, though the four other files can be read. A manager that has not
  read the file before drops it and returns the others.
\<close>

theorem cached_file_deleted_rejects_assemble:
  "map fc_path (case fst (generateProjectContext ''/proj'' sample_disk no_regexps sample_manager default_policy)
                of Inr ctx \<Rightarrow> relevantFiles ctx | Inl e \<Rightarrow> []) =
     [''/proj/index.js'', ''/proj/src/x.ts'', ''/proj/src/x.test.ts'', ''/proj/src/deep/y.ts'',
      ''/proj/z.css''] \<and>
   fst (generateProjectContext ''/proj'' sample_disk_without_x
          (snd (snd (generateProjectContext ''/proj'' sample_disk no_regexps sample_manager default_policy)))
          (fst (snd (generateProjectContext ''/proj'' sample_disk no_regexps sample_manager default_policy)))
          default_policy) =
     Inl (SystemError ''stat'' ''/proj/src/x.ts'') \<and>
   map fc_path (case fst (generateProjectContext ''/proj'' sample_disk_without_x no_regexps
                            sample_manager default_policy)
                of Inr ctx \<Rightarrow> relevantFiles ctx | Inl e \<Rightarrow> []) =
     [''/proj/index.js'', ''/proj/src/x.test.ts'', ''/proj/src/deep/y.ts'', ''/proj/z.css'']"
proof (intro conjI)
  show "map fc_path (case fst (generateProjectContext ''/proj'' sample_disk no_regexps sample_manager default_policy)
                of Inr ctx \<Rightarrow> relevantFiles ctx | Inl e \<Rightarrow> []) =
     [''/proj/index.js'', ''/proj/src/x.ts'', ''/proj/src/x.test.ts'', ''/proj/src/deep/y.ts'',
      ''/proj/z.css'']"
    by code_simp
  show "fst (generateProjectContext ''/proj'' sample_disk_without_x
          (snd (snd (generateProjectContext ''/proj'' sample_disk no_regexps sample_manager default_policy)))
          (fst (snd (generateProjectContext ''/proj'' sample_disk no_regexps sample_manager default_policy)))
          default_policy) =
     Inl (SystemError ''stat'' ''/proj/src/x.ts'')"
    by code_simp
  show "map fc_path (case fst (generateProjectContext ''/proj'' sample_disk_without_x no_regexps
                            sample_manager default_policy)
                of Inr ctx \<Rightarrow> relevantFiles ctx | Inl e \<Rightarrow> []) =
     [''/proj/index.js'', ''/proj/src/x.test.ts'', ''/proj/src/deep/y.ts'', ''/proj/z.css'']"
    by code_simp
qed


text \<open>
  C9. A selected file that is read with success but is empty is left out of the files
  of the result: \<open>getFileContext\<close> answers \<open>null\<close> for an empty content as it does for a
  failed read (the empty content is stored in the cache all the same), and no file of a
  result has an empty content.
\<close>

theorem empty_file_is_dropped:
  "(cache p = None \<and> readFile d p = Some [] \<longrightarrow>
      getFileContext d cache p = (Inr None, cache(p \<mapsto> []))) \<and>
   (cache p = None \<and> readFile d p = None \<longrightarrow>
      getFileContext d cache p = (Inr None, cache)) \<and>
   (projectStructure mgr = Some tree \<and>
    generateProjectContext cwd d regs mgr policy = (Inr ctx, mgr', regs') \<longrightarrow>
      (\<forall>fc \<in> set (relevantFiles ctx). fc_content fc \<noteq> []) \<and>
      (\<forall>q. fileCache mgr q = None \<and> readFile d q = Some [] \<longrightarrow>
           q \<notin> fc_path ` set (relevantFiles ctx)))"
proof (intro conjI impI allI ballI)
  assume "cache p = None \<and> readFile d p = Some []"
  then show "getFileContext d cache p = (Inr None, cache(p \<mapsto> []))"
    by (simp add: getFileContext_def getFileContent_def)
next
  assume "cache p = None \<and> readFile d p = None"
  then show "getFileContext d cache p = (Inr None, cache)"
    by (simp add: getFileContext_def getFileContent_def)
next
  fix fc
  assume a: "projectStructure mgr = Some tree \<and>
             generateProjectContext cwd d regs mgr policy = (Inr ctx, mgr', regs')"
    and fc: "fc \<in> set (relevantFiles ctx)"
  from result_file_selected[OF a[THEN conjunct1] a[THEN conjunct2] fc]
  obtain rf :: relevant_file
    where "context_value d (fileCache mgr) (absolutePath rf) = Some fc" by blast
  from context_value_Some[OF this] show "fc_content fc \<noteq> []" by simp
next
  fix q
  assume a: "projectStructure mgr = Some tree \<and>
             generateProjectContext cwd d regs mgr policy = (Inr ctx, mgr', regs')"
    and q: "fileCache mgr q = None \<and> readFile d q = Some []"
  show "q \<notin> fc_path ` set (relevantFiles ctx)"
  proof
    assume "q \<in> fc_path ` set (relevantFiles ctx)"
    then obtain fc where fc: "fc \<in> set (relevantFiles ctx)" "fc_path fc = q" by auto
    from result_file_selected[OF a[THEN conjunct1] a[THEN conjunct2] fc(1)]
    obtain rf :: relevant_file where "fc_path fc = absolutePath rf"
      "context_value d (fileCache mgr) (absolutePath rf) = Some fc" by blast
    with context_value_Some[of d "fileCache mgr" "absolutePath rf" fc] fc(2)
    have "effective d (fileCache mgr) q = Some (fc_content fc)" "fc_content fc \<noteq> []"
      by auto
    with q show False by (simp add: effective_def)
  qed
qed

theorem empty_file_is_dropped_witness:
  "projectStructure scanned_manager = Some scenario_tree \<and>
   fileCache scanned_manager ''/proj/src/a.ts'' = None \<and>
   readFile empty_file_disk ''/proj/src/a.ts'' = Some [] \<and>
   selection ''/proj'' no_regexps scenario_tree default_policy =
     [\<lparr>rf_path = ''src/a.ts'', absolutePath = ''/proj/src/a.ts''\<rparr>] \<and>
   fst (generateProjectContext ''/proj'' empty_file_disk no_regexps scanned_manager default_policy) =
     Inr \<lparr>pc_projectStructure = scenario_tree, relevantFiles = []\<rparr> \<and>
   getFileContext empty_file_disk (fileCache scanned_manager) ''/proj/src/a.ts'' =
     (Inr None, (fileCache scanned_manager)(''/proj/src/a.ts'' \<mapsto> []))"
proof -
  have m: "projectStructure scanned_manager = Some scenario_tree"
    by (simp add: scanned_manager_def)
  have c: "fileCache scanned_manager ''/proj/src/a.ts'' = None"
    by (simp add: scanned_manager_def new_ContextManager_def)
  have r: "readFile empty_file_disk ''/proj/src/a.ts'' = Some []"
    by (simp add: empty_file_disk_def)
  have sel: "selection ''/proj'' no_regexps scenario_tree default_policy =
     [\<lparr>rf_path = ''src/a.ts'', absolutePath = ''/proj/src/a.ts''\<rparr>]"
    by code_simp
  have g: "fst (generateProjectContext ''/proj'' empty_file_disk no_regexps scanned_manager default_policy) =
     Inr \<lparr>pc_projectStructure = scenario_tree, relevantFiles = []\<rparr>"
    by code_simp
  from empty_file_is_dropped[where cache = "fileCache scanned_manager"
      and p = "''/proj/src/a.ts''" and d = empty_file_disk,
      THEN conjunct1, rule_format, OF conjI[OF c r]]
  have "getFileContext empty_file_disk (fileCache scanned_manager) ''/proj/src/a.ts'' =
     (Inr None, (fileCache scanned_manager)(''/proj/src/a.ts'' \<mapsto> []))" .
  with m c r sel g show ?thesis by simp
qed

section \<open>The cache\<close>

lemma getFileContent_hit: "cache p = Some v \<Longrightarrow> getFileContent d cache p = (Some v, cache)"
  by (simp add: getFileContent_def)

lemma getFileContent_then_cached:
  "getFileContent d cache p = (Some v, cache') \<Longrightarrow> cache' p = Some v"
  by (auto simp: getFileContent_def split: option.splits)

lemma getFileContent_fixed:
  "cache p = effective d cache p \<Longrightarrow> snd (getFileContent d cache p) = cache"
  by (auto simp: getFileContent_def effective_def split: option.splits)

lemma getFileContexts_fixed:
  "\<forall>p \<in> set ps. cache p = effective d cache p \<Longrightarrow> snd (getFileContexts d cache ps) = cache"
  by (induction ps) (simp_all add: split_beta getFileContext_snd getFileContent_fixed)

lemma assemble_keeps_cache_entries:
  assumes "fileCache mgr p = Some v"
  shows "fileCache (fst (snd (generateProjectContext cwd d regs mgr policy))) p = Some v"
proof (cases "projectStructure mgr")
  case None
  with assms show ?thesis by (simp add: generateProjectContext_def)
next
  case (Some tree)
  show ?thesis unfolding assemble_cache(1)[OF Some] using assms by (rule getFileContexts_keeps)
qed

text \<open>Patterns that keep no state leave the \<open>RegExp\<close> objects as they are.\<close>

lemma regexps_after_stateless:
  assumes "stateless regs policy"
  shows "regexps_after cwd regs tree policy = regs"
proof -
  let ?o = "\<lparr>maxFiles = maxFiles policy, maxDepth = maxDepth policy,
      includePatterns = includePatterns policy,
      excludePatterns = excludePatterns policy, currentDepth = 0\<rparr>"
  from assms have "stateless regs ?o" by (simp only: stateless_find_options)
  from find_characterisation(1)[OF this, of cwd tree]
  show ?thesis by (simp add: regexps_after_def)
qed

lemma assemble_regexps_stateless:
  assumes "stateless regs policy"
  shows "snd (snd (generateProjectContext cwd d regs mgr policy)) = regs"
proof (cases "projectStructure mgr")
  case None
  then show ?thesis by (simp add: generateProjectContext_def)
next
  case (Some tree)
  show ?thesis
    unfolding assemble_cache(3)[OF Some] using assms by (rule regexps_after_stateless)
qed

lemma assemble_twice_same_disk:
  assumes st: "stateless regs policy"
    and g: "generateProjectContext cwd d regs mgr policy = (r, mgr1, regs1)"
  shows "generateProjectContext cwd d regs1 mgr1 policy = (r, mgr1, regs1)"
proof -
  from g assemble_regexps_stateless[OF st, of cwd d mgr] have regs1: "regs1 = regs" by simp
  show ?thesis
  proof (cases "projectStructure mgr")
    case None
    with g show ?thesis by (auto simp: generateProjectContext_def)
  next
    case (Some tree)
    let ?paths = "map absolutePath (selection cwd regs tree policy)"
    let ?c0 = "fileCache mgr"
    let ?c1 = "snd (getFileContexts d ?c0 ?paths)"
    from g have m1: "mgr1 = fst (snd (generateProjectContext cwd d regs mgr policy))" by simp
    have c1: "fileCache mgr1 = ?c1" and s1: "projectStructure mgr1 = Some tree"
      unfolding m1 by (rule assemble_cache[OF Some])+
    have ra: "regexps_after cwd regs tree policy = regs"
      using st by (rule regexps_after_stateless)
    have eff: "effective d ?c1 q = effective d ?c0 q" for q
      by (rule getFileContexts_effective)
    have same: "map (context_of d ?c1) ?paths = map (context_of d ?c0) ?paths"
      by (intro map_cong refl context_of_cong eff)
    have "\<forall>p \<in> set ?paths. ?c1 p = effective d ?c1 p"
      by (simp add: eff getFileContexts_stores)
    then have fixed: "snd (getFileContexts d ?c1 ?paths) = ?c1" by (rule getFileContexts_fixed)
    have upd: "mgr1\<lparr>fileCache := ?c1\<rparr> = mgr1" using c1 by simp
    have m1': "mgr1 = mgr\<lparr>fileCache := ?c1\<rparr>"
      unfolding m1 using Some
      by (simp add: generateProjectContext_scanned Let_def split: sum.splits)
    have two: "generateProjectContext cwd d regs mgr1 policy =
          (case promise_all (map (context_of d ?c0) ?paths) of
             Inl e \<Rightarrow> (Inl e, mgr1, regs)
           | Inr fileContexts \<Rightarrow>
               (Inr \<lparr>pc_projectStructure = tree,
                     relevantFiles = List.map_filter (\<lambda>context. context) fileContexts\<rparr>,
                mgr1, regs))"
      using generateProjectContext_scanned[OF s1, of cwd d regs policy]
      unfolding Let_def c1 same fixed upd ra .
    have one: "generateProjectContext cwd d regs mgr policy =
          (case promise_all (map (context_of d ?c0) ?paths) of
             Inl e \<Rightarrow> (Inl e, mgr1, regs)
           | Inr fileContexts \<Rightarrow>
               (Inr \<lparr>pc_projectStructure = tree,
                     relevantFiles = List.map_filter (\<lambda>context. context) fileContexts\<rparr>,
                mgr1, regs))"
      using generateProjectContext_scanned[OF Some, of cwd d regs policy]
      unfolding Let_def m1'[symmetric] ra .
    from one two g show ?thesis unfolding regs1 by simp
  qed
qed

lemma map_filter_contents:
  "\<forall>p \<in> set ps. \<exists>v. context_of d cache p = Inr v \<Longrightarrow>
   map fc_content (List.map_filter (context_value d cache) ps) =
     map (\<lambda>p. the (effective d cache p)) (filter (readable d cache) ps)"
proof (induction ps)
  case Nil
  show ?case by (simp add: map_filter_simps)
next
  case (Cons p ps)
  then obtain v where v: "context_of d cache p = Inr v" by auto
  show ?case
  proof (cases v)
    case None
    with v have "\<not> readable d cache p" "context_value d cache p = None"
      using context_value_None_readable[OF v] by (simp_all add: context_value_def)
    with Cons show ?thesis by (simp add: map_filter_simps)
  next
    case (Some fc)
    with v have r: "readable d cache p" and cv: "context_value d cache p = Some fc"
      using context_value_None_readable[OF v] by (simp_all add: context_value_def)
    from context_value_Some[OF cv] have "effective d cache p = Some (fc_content fc)" by simp
    with Cons r cv show ?thesis by (simp add: map_filter_simps)
  qed
qed

text \<open>
  A second call on another disk: where no selected file that could not be read at the
  first call can be read now, the files of the second result are those of the first,
  with the same contents.
\<close>

lemma assemble_again_same_contents:
  assumes st: "stateless regs policy"
    and s: "projectStructure mgr = Some tree"
    and g1: "generateProjectContext cwd d regs mgr policy = (Inr ctx1, mgr1, regs1)"
    and g2: "generateProjectContext cwd d' regs1 mgr1 policy = (Inr ctx2, mgr2, regs2)"
    and still: "\<forall>rf \<in> set (selection cwd regs tree policy).
                  effective d (fileCache mgr) (absolutePath rf) = None \<longrightarrow>
                  readFile d' (absolutePath rf) = None"
  shows "map fc_path (relevantFiles ctx2) = map fc_path (relevantFiles ctx1)"
    and "map fc_content (relevantFiles ctx2) = map fc_content (relevantFiles ctx1)"
proof -
  let ?paths = "map absolutePath (selection cwd regs tree policy)"
  let ?c0 = "fileCache mgr"
  let ?c1 = "snd (getFileContexts d ?c0 ?paths)"
  from g1 assemble_regexps_stateless[OF st, of cwd d mgr] have regs1: "regs1 = regs" by simp
  from g1 have m1: "mgr1 = fst (snd (generateProjectContext cwd d regs mgr policy))" by simp
  have c1: "fileCache mgr1 = ?c1" and s1: "projectStructure mgr1 = Some tree"
    unfolding m1 by (rule assemble_cache[OF s])+
  note a1 = assemble_success[OF s g1]
  note a2 = assemble_success[OF s1 g2[unfolded regs1], unfolded c1]
  have eff: "effective d' ?c1 p = effective d ?c0 p" if p: "p \<in> set ?paths" for p
  proof (cases "effective d ?c0 p")
    case None
    with still p have "readFile d' p = None" by auto
    with None getFileContexts_stores[OF p, of d ?c0] show ?thesis by (simp add: effective_def)
  next
    case (Some v)
    with getFileContexts_stores[OF p, of d ?c0] show ?thesis by (simp add: effective_def)
  qed
  then have rd: "readable d' ?c1 p = readable d ?c0 p" if "p \<in> set ?paths" for p
    using that by (simp add: readable_def)
  have f: "filter (readable d' ?c1) ?paths = filter (readable d ?c0) ?paths"
    by (rule filter_cong[OF refl]) (rule rd)
  have "map fc_path (relevantFiles ctx2) = filter (readable d' ?c1) ?paths"
    unfolding a2(1) using a2(2) by (rule map_filter_paths)
  moreover have "map fc_path (relevantFiles ctx1) = filter (readable d ?c0) ?paths"
    unfolding a1(1) using a1(2) by (rule map_filter_paths)
  ultimately show "map fc_path (relevantFiles ctx2) = map fc_path (relevantFiles ctx1)"
    using f by simp
  have "map fc_content (relevantFiles ctx2) =
          map (\<lambda>p. the (effective d' ?c1 p)) (filter (readable d' ?c1) ?paths)"
    unfolding a2(1) using a2(2) by (rule map_filter_contents)
  also have "\<dots> = map (\<lambda>p. the (effective d ?c0 p)) (filter (readable d ?c0) ?paths)"
    unfolding f by (rule map_cong[OF refl]) (simp add: eff)
  also have "\<dots> = map fc_content (relevantFiles ctx1)"
    unfolding a1(1) using a1(2) by (rule map_filter_contents[symmetric])
  finally show "map fc_content (relevantFiles ctx2) = map fc_content (relevantFiles ctx1)" .
qed

lemma scanned_manager_structure: "projectStructure scanned_manager = Some scenario_tree"
  by (simp add: scanned_manager_def)

lemma default_policy_stateless: "stateless regs default_policy"
  by (simp add: stateless_def default_policy_def)

lemma first_assembly:
  "fst (generateProjectContext ''/proj'' project_only_disk no_regexps scanned_manager
          default_policy) =
     Inr first_context"
  by code_simp

lemma second_assembly_rewritten:
  "fst (generateProjectContext ''/proj'' touched_disk
          (snd (snd (generateProjectContext ''/proj'' project_only_disk no_regexps
                       scanned_manager default_policy)))
          (fst (snd (generateProjectContext ''/proj'' project_only_disk no_regexps
                       scanned_manager default_policy)))
          default_policy) =
     Inr second_context"
  by code_simp

text \<open>
  C6. Once a content is stored in the cache for a path, every later request for that
  path answers the stored content, whatever is on disk, and leaves the cache as it is;
  no call of \<open>getFileContent\<close>, \<open>generateProjectContext\<close> or \<open>scanProject\<close> removes or changes
  an entry. So, with patterns that keep no state, a second call of
  \<open>generateProjectContext\<close> with the same options on an unchanged disk returns what the
  first returned; and whatever has changed on disk, where the second call returns and no
  selected file that could not be read at the first call can be read at the second, the
  files of the two results have the same paths and the same contents.
\<close>

theorem cached_content_is_stable:
  "(cache p = Some v \<longrightarrow> getFileContent d cache p = (Some v, cache)) \<and>
   (getFileContent d cache p = (Some v, cache') \<longrightarrow>
      (\<forall>d'. getFileContent d' cache' p = (Some v, cache'))) \<and>
   (cache p = Some v \<longrightarrow> snd (getFileContent d cache q) p = Some v) \<and>
   (fileCache mgr p = Some v \<longrightarrow>
      fileCache (fst (snd (generateProjectContext cwd d regs mgr policy))) p = Some v \<and>
      fileCache (snd (scanProject fs mgr root)) p = Some v) \<and>
   (stateless regs policy \<and>
    generateProjectContext cwd d regs mgr policy = (r, mgr1, regs1) \<longrightarrow>
      generateProjectContext cwd d regs1 mgr1 policy = (r, mgr1, regs1)) \<and>
   (stateless regs policy \<and> projectStructure mgr = Some tree \<and>
    generateProjectContext cwd d regs mgr policy = (Inr ctx1, mgr1, regs1) \<and>
    generateProjectContext cwd d' regs1 mgr1 policy = (Inr ctx2, mgr2, regs2) \<and>
    (\<forall>rf \<in> set (selection cwd regs tree policy).
       effective d (fileCache mgr) (absolutePath rf) = None \<longrightarrow>
       readFile d' (absolutePath rf) = None) \<longrightarrow>
      map fc_path (relevantFiles ctx2) = map fc_path (relevantFiles ctx1) \<and>
      map fc_content (relevantFiles ctx2) = map fc_content (relevantFiles ctx1))"
proof (intro conjI impI allI)
  assume "cache p = Some v"
  then show "getFileContent d cache p = (Some v, cache)" by (rule getFileContent_hit)
next
  fix d'
  assume "getFileContent d cache p = (Some v, cache')"
  then have "cache' p = Some v" by (rule getFileContent_then_cached)
  then show "getFileContent d' cache' p = (Some v, cache')" by (rule getFileContent_hit)
next
  assume "cache p = Some v"
  then show "snd (getFileContent d cache q) p = Some v" by (rule getFileContent_keeps)
next
  assume "fileCache mgr p = Some v"
  then show "fileCache (fst (snd (generateProjectContext cwd d regs mgr policy))) p = Some v"
    by (rule assemble_keeps_cache_entries)
next
  assume "fileCache mgr p = Some v"
  then show "fileCache (snd (scanProject fs mgr root)) p = Some v"
    by (simp add: scanProject_def split: sum.splits)
next
  assume a: "stateless regs policy \<and>
    generateProjectContext cwd d regs mgr policy = (r, mgr1, regs1)"
  from assemble_twice_same_disk[OF a[THEN conjunct1] a[THEN conjunct2]]
  show "generateProjectContext cwd d regs1 mgr1 policy = (r, mgr1, regs1)" .
next
  assume a: "stateless regs policy \<and> projectStructure mgr = Some tree \<and>
    generateProjectContext cwd d regs mgr policy = (Inr ctx1, mgr1, regs1) \<and>
    generateProjectContext cwd d' regs1 mgr1 policy = (Inr ctx2, mgr2, regs2) \<and>
    (\<forall>rf \<in> set (selection cwd regs tree policy).
       effective d (fileCache mgr) (absolutePath rf) = None \<longrightarrow>
       readFile d' (absolutePath rf) = None)"
  then have st: "stateless regs policy" and s: "projectStructure mgr = Some tree"
    and g1: "generateProjectContext cwd d regs mgr policy = (Inr ctx1, mgr1, regs1)"
    and g2: "generateProjectContext cwd d' regs1 mgr1 policy = (Inr ctx2, mgr2, regs2)"
    and still: "\<forall>rf \<in> set (selection cwd regs tree policy).
       effective d (fileCache mgr) (absolutePath rf) = None \<longrightarrow>
       readFile d' (absolutePath rf) = None"
    by simp_all
  from assemble_again_same_contents[OF st s g1 g2 still]
  show "map fc_path (relevantFiles ctx2) = map fc_path (relevantFiles ctx1)"
    and "map fc_content (relevantFiles ctx2) = map fc_content (relevantFiles ctx1)" .
qed

theorem cached_content_is_stable_witness:
  "stateless no_regexps default_policy \<and>
   projectStructure scanned_manager = Some scenario_tree \<and>
   fst (generateProjectContext ''/proj'' project_only_disk no_regexps scanned_manager
          default_policy) =
     Inr first_context \<and>
   fst (generateProjectContext ''/proj'' project_only_disk
          (snd (snd (generateProjectContext ''/proj'' project_only_disk no_regexps
                       scanned_manager default_policy)))
          (fst (snd (generateProjectContext ''/proj'' project_only_disk no_regexps
                       scanned_manager default_policy)))
          default_policy) =
     Inr first_context \<and>
   readFile touched_disk ''/proj/src/a.ts'' = Some ''changed'' \<and>
   fst (generateProjectContext ''/proj'' touched_disk
          (snd (snd (generateProjectContext ''/proj'' project_only_disk no_regexps
                       scanned_manager default_policy)))
          (fst (snd (generateProjectContext ''/proj'' project_only_disk no_regexps
                       scanned_manager default_policy)))
          default_policy) =
     Inr second_context \<and>
   map fc_content (relevantFiles first_context) = [''scanned''] \<and>
   map fc_content (relevantFiles second_context) = map fc_content (relevantFiles first_context)"
proof -
  let ?g = "generateProjectContext ''/proj'' project_only_disk no_regexps scanned_manager
              default_policy"
  let ?g2 = "generateProjectContext ''/proj'' touched_disk (snd (snd ?g)) (fst (snd ?g))
               default_policy"
  note st = default_policy_stateless[of no_regexps]
  have g: "?g = (Inr first_context, fst (snd ?g), snd (snd ?g))"
    using first_assembly by (simp add: prod_eq_iff)
  have g2: "?g2 = (Inr second_context, fst (snd ?g2), snd (snd ?g2))"
    using second_assembly_rewritten by (simp add: prod_eq_iff)
  have sel: "selection ''/proj'' no_regexps scenario_tree default_policy =
     [\<lparr>rf_path = ''src/a.ts'', absolutePath = ''/proj/src/a.ts''\<rparr>]"
    by code_simp
  have e: "effective project_only_disk (fileCache scanned_manager) ''/proj/src/a.ts'' =
             Some ''scanned''"
    by code_simp
  have still: "\<forall>rf \<in> set (selection ''/proj'' no_regexps scenario_tree default_policy).
       effective project_only_disk (fileCache scanned_manager) (absolutePath rf) = None \<longrightarrow>
       readFile touched_disk (absolutePath rf) = None"
    by (simp add: sel e)
  note t = cached_content_is_stable[where regs = no_regexps and policy = default_policy
      and cwd = "''/proj''" and mgr = scanned_manager and d = project_only_disk]
  from t[THEN conjunct2, THEN conjunct2, THEN conjunct2,
      THEN conjunct2, THEN conjunct1, rule_format, OF conjI[OF st g]]
  have one: "fst (generateProjectContext ''/proj'' project_only_disk (snd (snd ?g))
                (fst (snd ?g)) default_policy) = Inr first_context"
    by simp
  from t[THEN conjunct2, THEN conjunct2, THEN conjunct2,
      THEN conjunct2, THEN conjunct2, rule_format,
      OF conjI[OF st conjI[OF scanned_manager_structure conjI[OF g conjI[OF g2 still]]]]]
  have two: "map fc_content (relevantFiles second_context) =
             map fc_content (relevantFiles first_context)"
    by simp
  have "readFile touched_disk ''/proj/src/a.ts'' = Some ''changed''"
    by (simp add: touched_disk_def)
  moreover have "map fc_content (relevantFiles first_context) = [''scanned'']"
    by (simp add: first_context_def)
  ultimately show ?thesis
    using st scanned_manager_structure first_assembly second_assembly_rewritten one two
    by simp
qed

text \<open>
  C6 does not hold as first stated: two calls with the same structure and the same
  options do not always yield files of the same content. On a disk where \<open>src/a.ts\<close>
  cannot be read, the first call stores nothing and returns no file; the file can be
  read at the second call, which returns it. And on a disk that does not change, with
  the include pattern \<open>/src/g\<close>, the first call returns \<open>src/a.ts\<close> and leaves the pattern
  at index 3, so that the second call finds no match and returns no file.
\<close>

theorem assemble_twice_differs_counterexample:
  "projectStructure scanned_manager = Some scenario_tree \<and>
   fst (generateProjectContext ''/proj'' empty_disk no_regexps scanned_manager default_policy) =
     Inr \<lparr>pc_projectStructure = scenario_tree, relevantFiles = []\<rparr> \<and>
   projectStructure
     (fst (snd (generateProjectContext ''/proj'' empty_disk no_regexps scanned_manager
                  default_policy))) = Some scenario_tree \<and>
   fst (generateProjectContext ''/proj'' project_only_disk
          (snd (snd (generateProjectContext ''/proj'' empty_disk no_regexps scanned_manager
                       default_policy)))
          (fst (snd (generateProjectContext ''/proj'' empty_disk no_regexps scanned_manager
                       default_policy)))
          default_policy) =
     Inr first_context \<and>
   map fc_content (relevantFiles first_context) = [''scanned''] \<and>
   fst (generateProjectContext ''/proj'' project_only_disk src_regexps scanned_manager
          (default_policy\<lparr>includePatterns := [RegExpPattern 0]\<rparr>)) =
     Inr first_context \<and>
   lastIndex (snd (snd (generateProjectContext ''/proj'' project_only_disk src_regexps
                          scanned_manager
                          (default_policy\<lparr>includePatterns := [RegExpPattern 0]\<rparr>))) 0) = 3 \<and>
   fst (generateProjectContext ''/proj'' project_only_disk
          (snd (snd (generateProjectContext ''/proj'' project_only_disk src_regexps
                       scanned_manager
                       (default_policy\<lparr>includePatterns := [RegExpPattern 0]\<rparr>))))
          (fst (snd (generateProjectContext ''/proj'' project_only_disk src_regexps
                       scanned_manager
                       (default_policy\<lparr>includePatterns := [RegExpPattern 0]\<rparr>))))
          (default_policy\<lparr>includePatterns := [RegExpPattern 0]\<rparr>)) =
     Inr \<lparr>pc_projectStructure = scenario_tree, relevantFiles = []\<rparr>"
proof (intro conjI)
  show "projectStructure scanned_manager = Some scenario_tree"
    by (simp add: scanned_manager_def)
  show "fst (generateProjectContext ''/proj'' empty_disk no_regexps scanned_manager default_policy) =
     Inr \<lparr>pc_projectStructure = scenario_tree, relevantFiles = []\<rparr>"
    by code_simp
  show "projectStructure
     (fst (snd (generateProjectContext ''/proj'' empty_disk no_regexps scanned_manager
                  default_policy))) = Some scenario_tree"
    by code_simp
  show "fst (generateProjectContext ''/proj'' project_only_disk
          (snd (snd (generateProjectContext ''/proj'' empty_disk no_regexps scanned_manager
                       default_policy)))
          (fst (snd (generateProjectContext ''/proj'' empty_disk no_regexps scanned_manager
                       default_policy)))
          default_policy) =
     Inr first_context"
    by code_simp
  show "map fc_content (relevantFiles first_context) = [''scanned'']"
    by (simp add: first_context_def)
  show "fst (generateProjectContext ''/proj'' project_only_disk src_regexps scanned_manager
          (default_policy\<lparr>includePatterns := [RegExpPattern 0]\<rparr>)) =
     Inr first_context"
    by code_simp
  show "lastIndex (snd (snd (generateProjectContext ''/proj'' project_only_disk src_regexps
                          scanned_manager
                          (default_policy\<lparr>includePatterns := [RegExpPattern 0]\<rparr>))) 0) = 3"
    by code_simp
  show "fst (generateProjectContext ''/proj'' project_only_disk
          (snd (snd (generateProjectContext ''/proj'' project_only_disk src_regexps
                       scanned_manager
                       (default_policy\<lparr>includePatterns := [RegExpPattern 0]\<rparr>))))
          (fst (snd (generateProjectContext ''/proj'' project_only_disk src_regexps
                       scanned_manager
                       (default_policy\<lparr>includePatterns := [RegExpPattern 0]\<rparr>))))
          (default_policy\<lparr>includePatterns := [RegExpPattern 0]\<rparr>)) =
     Inr \<lparr>pc_projectStructure = scenario_tree, relevantFiles = []\<rparr>"
    by code_simp
qed

text \<open>
  C8. The cache holds for a path the raw text content and nothing else;
  \<open>lastModified\<close> of a file of a result is the modification time on disk at that call,
  which \<open>fs.statSync\<close> reads in every call of \<open>getFileContext\<close>, also when the content comes
  from the cache.
\<close>

theorem lastModified_is_read_at_every_call:
  "(projectStructure mgr = Some tree \<and>
    generateProjectContext cwd d regs mgr policy = (Inr ctx, mgr', regs') \<longrightarrow>
      (\<forall>fc \<in> set (relevantFiles ctx).
         statMtime d (fc_path fc) = Some (lastModified fc) \<and>
         fileCache mgr' (fc_path fc) = Some (fc_content fc))) \<and>
   (cache p = Some c \<and> c \<noteq> [] \<and> statMtime d p = Some mtime \<longrightarrow>
      getFileContext d cache p =
        (Inr (Some \<lparr>fc_path = p, fc_content = c, fc_extension = path_extname p,
                    lastModified = mtime\<rparr>), cache))"
proof (intro conjI impI ballI)
  fix fc
  assume a: "projectStructure mgr = Some tree \<and>
    generateProjectContext cwd d regs mgr policy = (Inr ctx, mgr', regs')"
    and fc: "fc \<in> set (relevantFiles ctx)"
  from a have s: "projectStructure mgr = Some tree"
    and g: "generateProjectContext cwd d regs mgr policy = (Inr ctx, mgr', regs')" by simp_all
  from result_file_selected[OF s g fc]
  obtain rf :: relevant_file where rf: "rf \<in> set (selection cwd regs tree policy)"
    "fc_path fc = absolutePath rf"
    "context_value d (fileCache mgr) (absolutePath rf) = Some fc"
    by blast
  note cv = context_value_Some[OF rf(3)]
  from cv rf(2) show "statMtime d (fc_path fc) = Some (lastModified fc)" by simp
  from g have "mgr' = fst (snd (generateProjectContext cwd d regs mgr policy))" by simp
  then have "fileCache mgr' =
      snd (getFileContexts d (fileCache mgr) (map absolutePath (selection cwd regs tree policy)))"
    using assemble_cache(1)[OF s, of cwd d regs policy] by simp
  moreover from rf(1) have "absolutePath rf \<in> set (map absolutePath (selection cwd regs tree policy))"
    by simp
  ultimately show "fileCache mgr' (fc_path fc) = Some (fc_content fc)"
    using getFileContexts_stores[of "absolutePath rf" _ d "fileCache mgr"] cv rf(2) by simp
next
  assume "cache p = Some c \<and> c \<noteq> [] \<and> statMtime d p = Some mtime"
  then show "getFileContext d cache p =
        (Inr (Some \<lparr>fc_path = p, fc_content = c, fc_extension = path_extname p,
                    lastModified = mtime\<rparr>), cache)"
    by (simp add: getFileContext_def getFileContent_def)
qed

theorem lastModified_is_read_at_every_call_witness:
  "projectStructure scanned_manager = Some scenario_tree \<and>
   fst (generateProjectContext ''/proj'' project_only_disk no_regexps scanned_manager
          default_policy) =
     Inr first_context \<and>
   statMtime project_only_disk ''/proj/src/a.ts'' = Some 100 \<and>
   fileCache (fst (snd (generateProjectContext ''/proj'' project_only_disk no_regexps
                          scanned_manager default_policy))) ''/proj/src/a.ts'' = Some ''scanned''"
proof -
  let ?g = "generateProjectContext ''/proj'' project_only_disk no_regexps scanned_manager
          default_policy"
  let ?fc = "\<lparr>fc_path = ''/proj/src/a.ts'', fc_content = ''scanned'', fc_extension = ''.ts'',
          lastModified = 100\<rparr>"
  have g: "?g = (Inr first_context, fst (snd ?g), snd (snd ?g))"
    using first_assembly by (simp add: prod_eq_iff)
  have m: "?fc \<in> set (relevantFiles first_context)" by (simp add: first_context_def)
  from lastModified_is_read_at_every_call[THEN conjunct1, rule_format,
      OF conjI[OF scanned_manager_structure g] m]
  have "statMtime project_only_disk ''/proj/src/a.ts'' = Some 100 \<and>
        fileCache (fst (snd ?g)) ''/proj/src/a.ts'' = Some ''scanned''" by simp
  with scanned_manager_structure first_assembly show ?thesis by simp
qed

text \<open>
  C8 does not hold with \<open>lastModified\<close> as a snapshot of the first read. The first call
  reads \<open>src/a.ts\<close> with modification time 100; the file is rewritten; the second call
  returns the content of the first read with modification time 999.
\<close>

theorem lastModified_is_no_snapshot_counterexample:
  "fst (generateProjectContext ''/proj'' project_only_disk no_regexps scanned_manager
          default_policy) =
     Inr first_context \<and>
   map lastModified (relevantFiles first_context) = [100] \<and>
   fst (generateProjectContext ''/proj'' touched_disk
          (snd (snd (generateProjectContext ''/proj'' project_only_disk no_regexps
                       scanned_manager default_policy)))
          (fst (snd (generateProjectContext ''/proj'' project_only_disk no_regexps
                       scanned_manager default_policy)))
          default_policy) =
     Inr second_context \<and>
   map lastModified (relevantFiles second_context) = [999] \<and>
   map fc_content (relevantFiles second_context) = [''scanned'']"
  by (simp add: first_assembly second_assembly_rewritten first_context_def second_context_def)


end
